theory Spec2Isabelle
  imports Main "HOL-Library.Sublist"
begin

section \<open>Strings and the standard-library helpers the converter calls\<close>

text \<open>
  A Go \<open>string\<close> is a sequence of bytes, so it is modelled as \<^typ>\<open>string\<close> (a list of
  8-bit \<^typ>\<open>char\<close>); \<open>len\<close> is \<^const>\<open>length\<close> and all offsets are byte offsets.
\<close>

definition slice :: "string \<Rightarrow> nat \<Rightarrow> nat \<Rightarrow> string" where
  \<comment> \<open>Go's \<open>s[lo:hi]\<close>; the converter only slices at offsets returned by the matcher,
      which lie inside the string (lemmas \<open>find_index1\<close> and \<open>find_index2\<close> below).\<close>
  "slice s lo hi = take (hi - lo) (drop lo s)"

definition HasPrefix :: "string \<Rightarrow> string \<Rightarrow> bool" where
  "HasPrefix s pre = prefix pre s"

text \<open>
  \<open>strings.TrimSpace\<close> removes leading and trailing Unicode white space
  (\<open>unicode.IsSpace\<close>). On the bytes of the string this is the removal of the UTF-8
  encodings of the white-space code points: U+0009..U+000D, U+0020, U+0085, U+00A0, U+1680,
  U+2000..U+200A, U+2028, U+2029, U+202F, U+205F and U+3000.
\<close>

definition spaceRunes :: "string list" where
  "spaceRunes =
    [[CHR 0x09], [CHR 0x0A], [CHR 0x0B], [CHR 0x0C], [CHR 0x0D], [CHR 0x20],
     [CHR 0xC2, CHR 0x85], [CHR 0xC2, CHR 0xA0],
     [CHR 0xE1, CHR 0x9A, CHR 0x80],
     [CHR 0xE2, CHR 0x80, CHR 0x80], [CHR 0xE2, CHR 0x80, CHR 0x81],
     [CHR 0xE2, CHR 0x80, CHR 0x82], [CHR 0xE2, CHR 0x80, CHR 0x83],
     [CHR 0xE2, CHR 0x80, CHR 0x84], [CHR 0xE2, CHR 0x80, CHR 0x85],
     [CHR 0xE2, CHR 0x80, CHR 0x86], [CHR 0xE2, CHR 0x80, CHR 0x87],
     [CHR 0xE2, CHR 0x80, CHR 0x88], [CHR 0xE2, CHR 0x80, CHR 0x89],
     [CHR 0xE2, CHR 0x80, CHR 0x8A],
     [CHR 0xE2, CHR 0x80, CHR 0xA8], [CHR 0xE2, CHR 0x80, CHR 0xA9],
     [CHR 0xE2, CHR 0x80, CHR 0xAF],
     [CHR 0xE2, CHR 0x81, CHR 0x9F],
     [CHR 0xE3, CHR 0x80, CHR 0x80]]"

definition leadingSpace :: "string \<Rightarrow> string option" where
  "leadingSpace s = find (\<lambda>e. prefix e s) spaceRunes"

definition trailingSpace :: "string \<Rightarrow> string option" where
  "trailingSpace s = find (\<lambda>e. suffix e s) spaceRunes"

lemma find_Some_mem: "find P xs = Some x \<Longrightarrow> P x \<and> x \<in> set xs"
  by (induction xs) (auto split: if_splits)

lemma spaceRunes_nonempty: "e \<in> set spaceRunes \<Longrightarrow> e \<noteq> []"
  by (auto simp: spaceRunes_def)

lemma leadingSpace_Some: "leadingSpace s = Some e \<Longrightarrow> e \<noteq> [] \<and> prefix e s"
  unfolding leadingSpace_def by (auto dest!: find_Some_mem spaceRunes_nonempty)

lemma trailingSpace_Some: "trailingSpace s = Some e \<Longrightarrow> e \<noteq> [] \<and> suffix e s"
  unfolding trailingSpace_def by (auto dest!: find_Some_mem spaceRunes_nonempty)

function TrimLeft :: "string \<Rightarrow> string" where
  "TrimLeft s = (case leadingSpace s of
                   None \<Rightarrow> s
                 | Some e \<Rightarrow> TrimLeft (drop (length e) s))"
  by pat_completeness auto
termination
proof (relation "measure length")
  fix s e assume "leadingSpace s = Some e"
  then have "e \<noteq> []" "prefix e s" by (auto dest: leadingSpace_Some)
  then show "(drop (length e) s, s) \<in> measure length"
    by (cases s) (auto simp: prefix_def)
qed simp

function TrimRight :: "string \<Rightarrow> string" where
  "TrimRight s = (case trailingSpace s of
                    None \<Rightarrow> s
                  | Some e \<Rightarrow> TrimRight (take (length s - length e) s))"
  by pat_completeness auto
termination
proof (relation "measure length")
  fix s e assume "trailingSpace s = Some e"
  then have "e \<noteq> []" "suffix e s" by (auto dest: trailingSpace_Some)
  then show "(take (length s - length e) s, s) \<in> measure length"
    by (cases s) (auto simp: suffix_def)
qed simp

declare TrimLeft.simps [simp del] TrimRight.simps [simp del]

definition TrimSpace :: "string \<Rightarrow> string" where
  "TrimSpace s = TrimRight (TrimLeft s)"

fun splitAcc :: "string \<Rightarrow> string \<Rightarrow> string list" where
  "splitAcc cur [] = [cur]"
| "splitAcc cur (c # cs) =
     (if c = CHR 0x0A then cur # splitAcc [] cs else splitAcc (cur @ [c]) cs)"

definition Split :: "string \<Rightarrow> string list" where
  \<comment> \<open>\<open>strings.Split(text, "\n")\<close>: the pieces between newline bytes, at least one piece.\<close>
  "Split text = splitAcc [] text"

fun Join :: "string list \<Rightarrow> string" where
  \<comment> \<open>\<open>strings.Join(xs, "\n")\<close>\<close>
  "Join [] = []"
| "Join [x] = x"
| "Join (x # y # ys) = x @ [CHR 0x0A] @ Join (y # ys)"

section \<open>Regular expressions\<close>

text \<open>
  The patterns of the converter use literal bytes, the classes \<open>[^c]\<close>, \<open>.\<close> and \<open>\s\<close>,
  the repetitions \<open>+\<close>, \<open>+?\<close> and \<open>{m,n}\<close> of a single class, concatenation, alternation,
  groups, \<open>^\<close> and \<open>$\<close>. Go's \<open>regexp\<close> returns the leftmost match and, among the matches
  at that offset, the one a backtracking search finds first. \<open>backtrack\<close> lists the
  outcomes of a pattern at a position in exactly that order of preference; an outcome is
  the offset reached, the text left, and the offsets of the groups closed so far.

  Go matches code point by code point: a single class consumes the whole UTF-8 encoding of
  the next code point (one byte where the encoding is invalid), and the search for the
  start of a match moves on by one code point; \<open>runeWidth\<close> is the width that
  \<open>utf8.DecodeRuneInString\<close> returns. All code points that the classes of the patterns
  name are ASCII, so the first byte decides whether a code point belongs to a class. The
  repetitions of \<open>\s\<close> and of \<open>#\<close> consume ASCII bytes only. Every other repetition
  of a class is followed in its pattern by an ASCII byte or by the end of the text, and an
  ASCII byte is never part of the encoding of another code point, so a repetition may
  count bytes: the match goes on only at offsets where Go's repetition can end too.
\<close>

definition inRange :: "char \<Rightarrow> nat \<Rightarrow> nat \<Rightarrow> bool" where
  "inRange b lo hi \<longleftrightarrow> lo \<le> (of_char b :: nat) \<and> (of_char b :: nat) \<le> hi"

definition runeSize :: "char \<Rightarrow> nat" where
  \<comment> \<open>the length that the first byte announces; 1 for ASCII and for a byte that starts no
      encoding\<close>
  "runeSize b0 =
     (if \<not> digit7 b0 then 1 \<comment> \<open>ASCII: \<open>b0 < 0x80\<close>\<close>
      else if inRange b0 0xC2 0xDF then 2
      else if inRange b0 0xE0 0xEF then 3
      else if inRange b0 0xF0 0xF4 then 4
      else 1)"

definition acceptLo :: "char \<Rightarrow> nat" where
  \<comment> \<open>the least second byte accepted behind the first byte\<close>
  "acceptLo b0 = (if b0 = CHR 0xE0 then 0xA0 else if b0 = CHR 0xF0 then 0x90 else 0x80)"

definition acceptHi :: "char \<Rightarrow> nat" where
  \<comment> \<open>the greatest second byte accepted behind the first byte\<close>
  "acceptHi b0 = (if b0 = CHR 0xED then 0x9F else if b0 = CHR 0xF4 then 0x8F else 0xBF)"

fun runeWidth :: "string \<Rightarrow> nat" where
  "runeWidth [] = 0"
| "runeWidth (b0 # bs) =
     (let sz = runeSize b0 in
      if sz = 1 then 1
      else if length bs < sz - 1 then 1
      else if \<not> inRange (bs ! 0) (acceptLo b0) (acceptHi b0) then 1
      else if sz = 2 then 2
      else if \<not> inRange (bs ! 1) 0x80 0xBF then 1
      else if sz = 3 then 3
      else if \<not> inRange (bs ! 2) 0x80 0xBF then 1
      else 4)"

lemma runeSize_cases: "runeSize b = 1 \<or> runeSize b = 2 \<or> runeSize b = 3 \<or> runeSize b = 4"
  by (simp add: runeSize_def)

lemma runeWidth_bounds: "rest \<noteq> [] \<Longrightarrow> 1 \<le> runeWidth rest \<and> runeWidth rest \<le> length rest"
proof (cases rest)
  case (Cons b0 bs)
  from runeSize_cases[of b0] show ?thesis
    unfolding Cons by (auto simp: Let_def Suc_le_eq)
qed simp

datatype cclass =
    Lit char      \<comment> \<open>a literal ASCII byte\<close>
  | NotLit char   \<comment> \<open>\<open>[^c]\<close>\<close>
  | AnyChar       \<comment> \<open>\<open>.\<close>: anything but newline\<close>
  | Space         \<comment> \<open>\<open>\s\<close>: \<open>[\t\n\f\r ]\<close>\<close>

fun cmatch :: "cclass \<Rightarrow> char \<Rightarrow> bool" where
  "cmatch (Lit c) x = (x = c)"
| "cmatch (NotLit c) x = (x \<noteq> c)"
| "cmatch AnyChar x = (x \<noteq> CHR 0x0A)"
| "cmatch Space x = (x = CHR 0x09 \<or> x = CHR 0x0A \<or> x = CHR 0x0C \<or> x = CHR 0x0D \<or> x = CHR 0x20)"

datatype re =
    One cclass            \<comment> \<open>one code point of the class\<close>
  | Plus cclass           \<comment> \<open>\<open>c+\<close>, greedy\<close>
  | PlusLazy cclass       \<comment> \<open>\<open>c+?\<close>, lazy\<close>
  | Rep cclass nat nat    \<comment> \<open>\<open>c{m,n}\<close>, greedy\<close>
  | Cat re re
  | Alt re re
  | Group re              \<comment> \<open>a capturing group\<close>
  | Bol                   \<comment> \<open>\<open>^\<close>: start of text\<close>
  | Eol                   \<comment> \<open>\<open>$\<close>: end of text\<close>

type_synonym mstate = "nat \<times> string \<times> (nat \<times> nat) list"

definition advance :: "mstate \<Rightarrow> nat \<Rightarrow> mstate" where
  "advance st k = (case st of (p, rest, caps) \<Rightarrow> (p + k, drop k rest, caps))"

definition run :: "cclass \<Rightarrow> string \<Rightarrow> nat" where
  \<comment> \<open>how many leading bytes belong to the class\<close>
  "run c rest = length (takeWhile (cmatch c) rest)"

fun backtrack :: "re \<Rightarrow> mstate \<Rightarrow> mstate list" where
  "backtrack (One c) (p, rest, caps) =
     (case rest of
        [] \<Rightarrow> []
      | x # xs \<Rightarrow> if cmatch c x then [advance (p, rest, caps) (runeWidth rest)] else [])"
| "backtrack (Plus c) (p, rest, caps) =
     map (advance (p, rest, caps)) (rev [1 ..< Suc (run c rest)])"
| "backtrack (PlusLazy c) (p, rest, caps) =
     map (advance (p, rest, caps)) [1 ..< Suc (run c rest)]"
| "backtrack (Rep c lo hi) (p, rest, caps) =
     map (advance (p, rest, caps)) (rev [lo ..< Suc (min hi (run c rest))])"
| "backtrack (Cat a b) st = concat (map (backtrack b) (backtrack a st))"
| "backtrack (Alt a b) st = backtrack a st @ backtrack b st"
| "backtrack (Group a) (p, rest, caps) =
     map (\<lambda>(q, rest', caps'). (q, rest', caps' @ [(p, q)])) (backtrack a (p, rest, caps))"
| "backtrack Bol (p, rest, caps) = (if p = 0 then [(p, rest, caps)] else [])"
| "backtrack Eol (p, rest, caps) = (if rest = [] then [(p, rest, caps)] else [])"

function search :: "re \<Rightarrow> nat \<Rightarrow> string \<Rightarrow> (nat \<times> mstate) option" where
  "search r p rest =
     (case backtrack r (p, rest, []) of
        st # _ \<Rightarrow> Some (p, st)
      | [] \<Rightarrow>
          if rest = [] then None
          else search r (p + runeWidth rest) (drop (runeWidth rest) rest))"
  by pat_completeness auto
termination
proof (relation "measure (\<lambda>(r, p, rest). length rest)")
  fix r :: re and p :: nat and rest :: string
  assume "rest \<noteq> []"
  then show "((r, p + runeWidth rest, drop (runeWidth rest) rest), r, p, rest)
               \<in> measure (\<lambda>(r, p, rest). length rest)"
    using runeWidth_bounds[of rest] by simp
qed simp

declare search.simps [simp del]

definition FindStringSubmatchIndex :: "re \<Rightarrow> string \<Rightarrow> nat list option" where
  \<comment> \<open>\<open>loc[0]\<close>, \<open>loc[1]\<close>: the match; \<open>loc[2k]\<close>, \<open>loc[2k+1]\<close>: group \<open>k\<close>\<close>
  "FindStringSubmatchIndex r s =
     (case search r 0 s of
        None \<Rightarrow> None
      | Some (i, (e, _, caps)) \<Rightarrow> Some (i # e # concat (map (\<lambda>(a, b). [a, b]) caps)))"

definition FindStringSubmatch :: "re \<Rightarrow> string \<Rightarrow> string list option" where
  "FindStringSubmatch r s =
     (case search r 0 s of
        None \<Rightarrow> None
      | Some (i, (e, _, caps)) \<Rightarrow> Some (slice s i e # map (\<lambda>(a, b). slice s a b) caps))"

subsection \<open>What every outcome of the matcher satisfies\<close>

text \<open>
  \<open>minw\<close> is the least number of bytes a pattern consumes and \<open>ngroups\<close> its number of
  groups. For a pattern whose groups cannot be empty and whose alternatives hold no group
  (\<open>wf_re\<close>; all patterns of the file are such), an outcome lies inside the text, spans at
  least \<open>minw\<close> bytes and closes \<open>ngroups\<close> non-empty groups inside the match.
\<close>

fun minw :: "re \<Rightarrow> nat" where
  "minw (One c) = 1"
| "minw (Plus c) = 1"
| "minw (PlusLazy c) = 1"
| "minw (Rep c lo hi) = lo"
| "minw (Cat a b) = minw a + minw b"
| "minw (Alt a b) = min (minw a) (minw b)"
| "minw (Group a) = minw a"
| "minw Bol = 0"
| "minw Eol = 0"

fun ngroups :: "re \<Rightarrow> nat" where
  "ngroups (Cat a b) = ngroups a + ngroups b"
| "ngroups (Alt a b) = ngroups a + ngroups b"
| "ngroups (Group a) = Suc (ngroups a)"
| "ngroups _ = 0"

fun wf_re :: "re \<Rightarrow> bool" where
  "wf_re (Cat a b) = (wf_re a \<and> wf_re b)"
| "wf_re (Alt a b) = (ngroups a = 0 \<and> ngroups b = 0 \<and> wf_re a \<and> wf_re b)"
| "wf_re (Group a) = (0 < minw a \<and> wf_re a)"
| "wf_re _ = True"

definition reaches :: "re \<Rightarrow> mstate \<Rightarrow> mstate \<Rightarrow> bool" where
  "reaches r st st' =
    (case (st, st') of ((p, rest, caps), (q, rest', caps')) \<Rightarrow>
       p + minw r \<le> q \<and> q \<le> p + length rest \<and> rest' = drop (q - p) rest \<and>
       (\<exists>new. caps' = caps @ new \<and> length new = ngroups r \<and>
              (\<forall>(a, b) \<in> set new. p \<le> a \<and> a < b \<and> b \<le> q)))"

lemma run_le: "run c rest \<le> length rest"
  by (simp add: run_def length_takeWhile_le)

lemma backtrack_reaches:
  "wf_re r \<Longrightarrow> st' \<in> set (backtrack r st) \<Longrightarrow> reaches r st st'"
proof (induction r arbitrary: st st')
  case (One c)
  obtain p rest caps where st: "st = (p, rest, caps)" by (cases st)
  with One.prems obtain x xs where r: "rest = x # xs" "cmatch c x"
    "st' = (p + runeWidth rest, drop (runeWidth rest) rest, caps)"
    by (auto simp: advance_def split: list.splits if_splits)
  from r(1) have "1 \<le> runeWidth rest \<and> runeWidth rest \<le> length rest"
    by (intro runeWidth_bounds) simp
  with r(3) st show ?case by (simp add: reaches_def)
next
  case (Plus c)
  then show ?case using run_le[of c "fst (snd st)"]
    by (cases st; cases st') (auto simp: reaches_def advance_def)
next
  case (PlusLazy c)
  then show ?case using run_le[of c "fst (snd st)"]
    by (cases st; cases st') (auto simp: reaches_def advance_def)
next
  case (Rep c lo hi)
  then show ?case using run_le[of c "fst (snd st)"]
    by (cases st; cases st') (auto simp: reaches_def advance_def)
next
  case (Cat a b)
  from Cat.prems obtain m where m: "m \<in> set (backtrack a st)" "st' \<in> set (backtrack b m)"
    by auto
  from Cat.prems m have ra: "reaches a st m" and rb: "reaches b m st'"
    by (auto intro: Cat.IH)
  obtain p rest caps where st: "st = (p, rest, caps)" by (cases st)
  obtain pm restm capsm where mm: "m = (pm, restm, capsm)" by (cases m)
  obtain q rest' caps' where st': "st' = (q, rest', caps')" by (cases st')
  from ra st mm obtain n1 where a:
    "p + minw a \<le> pm" "pm \<le> p + length rest" "restm = drop (pm - p) rest"
    "capsm = caps @ n1" "length n1 = ngroups a" "\<forall>(x, y) \<in> set n1. p \<le> x \<and> x < y \<and> y \<le> pm"
    by (auto simp: reaches_def)
  from rb st' mm obtain n2 where b:
    "pm + minw b \<le> q" "q \<le> pm + length restm" "rest' = drop (q - pm) restm"
    "caps' = capsm @ n2" "length n2 = ngroups b" "\<forall>(x, y) \<in> set n2. pm \<le> x \<and> x < y \<and> y \<le> q"
    by (auto simp: reaches_def)
  have "caps' = caps @ (n1 @ n2)" using a b by simp
  moreover have "length (n1 @ n2) = ngroups (Cat a b)" using a b by simp
  moreover have "\<forall>(x, y) \<in> set (n1 @ n2). p \<le> x \<and> x < y \<and> y \<le> q"
    using a b by fastforce
  moreover have "rest' = drop (q - p) rest" using a b by simp
  moreover have "p + minw (Cat a b) \<le> q" "q \<le> p + length rest" using a b by auto
  ultimately show ?case unfolding st st' reaches_def by blast
next
  case (Alt a b)
  from Alt.prems have w: "wf_re a" "wf_re b" "ngroups a = 0" "ngroups b = 0"
    and "st' \<in> set (backtrack a st) \<or> st' \<in> set (backtrack b st)" by auto
  then have "reaches a st st' \<or> reaches b st st'" using Alt.IH by blast
  with w show ?case
    by (cases st; cases st') (auto simp: reaches_def)
next
  case (Group a)
  obtain p rest caps where st: "st = (p, rest, caps)" by (cases st)
  obtain q rest' caps' where st': "st' = (q, rest', caps')" by (cases st')
  from Group.prems st st' obtain c0 where c0: "(q, rest', c0) \<in> set (backtrack a st)" "caps' = c0 @ [(p, q)]"
    by auto
  with Group have "reaches a st (q, rest', c0)" by auto
  then obtain n1 where a:
    "p + minw a \<le> q" "q \<le> p + length rest" "rest' = drop (q - p) rest"
    "c0 = caps @ n1" "length n1 = ngroups a" "\<forall>(x, y) \<in> set n1. p \<le> x \<and> x < y \<and> y \<le> q"
    unfolding st by (auto simp: reaches_def)
  have "caps' = caps @ (n1 @ [(p, q)])" using a c0 by simp
  moreover have "length (n1 @ [(p, q)]) = ngroups (Group a)" using a by simp
  moreover have "\<forall>(x, y) \<in> set (n1 @ [(p, q)]). p \<le> x \<and> x < y \<and> y \<le> q"
    using a Group.prems by auto
  ultimately show ?case using a unfolding st st' reaches_def by auto
next
  case Bol
  then show ?case by (cases st; cases st') (auto simp: reaches_def split: if_splits)
next
  case Eol
  then show ?case by (cases st; cases st') (auto simp: reaches_def split: if_splits)
qed

lemma search_reaches:
  "wf_re r \<Longrightarrow> search r p s = Some (i, st') \<Longrightarrow>
     p \<le> i \<and> i \<le> p + length s \<and> reaches r (i, drop (i - p) s, []) st'"
proof (induction r p s rule: search.induct)
  case (1 r p rest)
  show ?case
  proof (cases "backtrack r (p, rest, [])")
    case (Cons a list)
    with "1.prems"(2) have "i = p" "st' = a" by (simp_all add: search.simps[of r p rest])
    moreover have "reaches r (p, rest, []) a"
      using Cons "1.prems"(1) by (auto intro: backtrack_reaches)
    ultimately show ?thesis by simp
  next
    case Nil
    with "1.prems"(2) have ne: "rest \<noteq> []"
      and s: "search r (p + runeWidth rest) (drop (runeWidth rest) rest) = Some (i, st')"
      by (auto simp: search.simps[of r p rest] split: if_splits)
    let ?w = "runeWidth rest"
    from runeWidth_bounds[OF ne] have w: "1 \<le> ?w" "?w \<le> length rest" by auto
    from "1.IH"[OF Nil ne "1.prems"(1) s]
    have ih: "p + ?w \<le> i" "i \<le> p + ?w + length (drop ?w rest)"
      "reaches r (i, drop (i - (p + ?w)) (drop ?w rest), []) st'"
      by auto
    have "drop (i - (p + ?w)) (drop ?w rest) = drop (i - p) rest"
      using ih(1) by (simp add: add.commute)
    with ih w show ?thesis by simp
  qed
qed

subsection \<open>The patterns of richtext.go\<close>

definition reInlineCode :: re where
  \<comment> \<open>\<open>`([^`]+)`\<close>\<close>
  "reInlineCode = Cat (One (Lit CHR ''`'')) (Cat (Group (Plus (NotLit CHR ''`''))) (One (Lit CHR ''`'')))"

definition reMdLink :: re where
  \<comment> \<open>\<open>\[([^\]]+)\]\(([^)]+)\)\<close>\<close>
  "reMdLink =
     Cat (One (Lit CHR ''[''))
    (Cat (Group (Plus (NotLit CHR '']'')))
    (Cat (One (Lit CHR '']''))
    (Cat (One (Lit CHR ''(''))
    (Cat (Group (Plus (NotLit CHR '')'')))
         (One (Lit CHR '')''))))))"

definition delimited :: "char \<Rightarrow> re" where
  \<comment> \<open>\<open>dd(.+?)dd\<close> for a delimiter byte \<open>d\<close>\<close>
  "delimited d =
     Cat (One (Lit d)) (Cat (One (Lit d))
    (Cat (Group (PlusLazy AnyChar))
    (Cat (One (Lit d)) (One (Lit d)))))"

definition reMdBoldStar :: re where
  \<comment> \<open>\<open>\*\*(.+?)\*\*\<close>\<close>
  "reMdBoldStar = delimited CHR ''*''"

definition reMdBoldUnder :: re where
  \<comment> \<open>\<open>__(.+?)__\<close>\<close>
  "reMdBoldUnder = delimited CHR ''_''"

definition reMdStrike :: re where
  \<comment> \<open>\<open>~~(.+?)~~\<close>\<close>
  "reMdStrike = delimited CHR ''~''"

definition reMdItalic :: re where
  \<comment> \<open>\<open>(?:^|[^*])\*([^*]+)\*(?:[^*]|$)\<close>; no function of the file uses it\<close>
  "reMdItalic =
     Cat (Alt Bol (One (NotLit CHR ''*'')))
    (Cat (One (Lit CHR ''*''))
    (Cat (Group (Plus (NotLit CHR ''*'')))
    (Cat (One (Lit CHR ''*''))
         (Alt (One (NotLit CHR ''*'')) Eol))))"

definition reMdHeading :: re where
  \<comment> \<open>\<open>^#{1,6}\s+(.+)$\<close>\<close>
  "reMdHeading =
     Cat Bol (Cat (Rep (Lit CHR ''#'') 1 6) (Cat (Plus Space) (Cat (Group (Plus AnyChar)) Eol)))"


section \<open>The converter (richtext.go)\<close>

text \<open>
  \<open>map[string]any\<close> values are association lists from keys to \<open>any\<close>; the keys of
  every map literal of the file are distinct, and they are listed in the order the source
  writes them. A \<open>[]string\<close> is \<open>StrList\<close>, a slice of other values \<open>Arr\<close>.
\<close>

datatype any = Str string | StrList "string list" | Obj "(string \<times> any) list" | Arr "any list"

type_synonym postElement = "(string \<times> any) list"

text \<open>The fields \<open>end\<close> and \<open>typ\<close> of the source's \<open>match\<close> are \<open>endp\<close> and \<open>mtyp\<close> here.\<close>

record match =
  start :: nat
  endp :: nat
  mtyp :: string
  groups :: "string list"

definition closer :: "nat list \<Rightarrow> match option \<Rightarrow> bool" where
  \<comment> \<open>\<open>earliest == nil || loc[0] < earliest.start\<close>\<close>
  "closer loc earliest = (case earliest of None \<Rightarrow> True | Some e \<Rightarrow> loc ! 0 < start e)"

definition earliest :: "string \<Rightarrow> match option" where
  \<comment> \<open>the five \<open>if loc := ...\<close> blocks at the head of the loop body\<close>
  "earliest remaining =
    (let earliest = None;
         earliest = (case FindStringSubmatchIndex reMdLink remaining of
             None \<Rightarrow> earliest
           | Some loc \<Rightarrow>
               Some \<lparr>start = loc ! 0, endp = loc ! 1, mtyp = ''link'',
                     groups = [slice remaining (loc ! 2) (loc ! 3),
                               slice remaining (loc ! 4) (loc ! 5)]\<rparr>);
         earliest = (case FindStringSubmatchIndex reInlineCode remaining of
             None \<Rightarrow> earliest
           | Some loc \<Rightarrow>
               if closer loc earliest
               then Some \<lparr>start = loc ! 0, endp = loc ! 1, mtyp = ''code'',
                          groups = [slice remaining (loc ! 2) (loc ! 3)]\<rparr>
               else earliest);
         earliest = (case FindStringSubmatchIndex reMdBoldStar remaining of
             None \<Rightarrow> earliest
           | Some loc \<Rightarrow>
               if closer loc earliest
               then Some \<lparr>start = loc ! 0, endp = loc ! 1, mtyp = ''bold'',
                          groups = [slice remaining (loc ! 2) (loc ! 3)]\<rparr>
               else earliest);
         earliest = (case FindStringSubmatchIndex reMdBoldUnder remaining of
             None \<Rightarrow> earliest
           | Some loc \<Rightarrow>
               if closer loc earliest
               then Some \<lparr>start = loc ! 0, endp = loc ! 1, mtyp = ''bold'',
                          groups = [slice remaining (loc ! 2) (loc ! 3)]\<rparr>
               else earliest);
         earliest = (case FindStringSubmatchIndex reMdStrike remaining of
             None \<Rightarrow> earliest
           | Some loc \<Rightarrow>
               if closer loc earliest
               then Some \<lparr>start = loc ! 0, endp = loc ! 1, mtyp = ''strike'',
                          groups = [slice remaining (loc ! 2) (loc ! 3)]\<rparr>
               else earliest)
     in earliest)"

definition matched :: "match \<Rightarrow> postElement list" where
  \<comment> \<open>the \<open>switch earliest.typ\<close>: the element appended for the match (none for another \<open>typ\<close>)\<close>
  "matched e =
    (if mtyp e = ''link'' then
       [[(''tag'', Str ''a''), (''text'', Str (groups e ! 0)), (''href'', Str (groups e ! 1))]]
     else if mtyp e = ''code'' then
       [[(''tag'', Str ''text''), (''text'', Str (groups e ! 0)), (''style'', StrList [''code_block''])]]
     else if mtyp e = ''bold'' then
       [[(''tag'', Str ''text''), (''text'', Str (groups e ! 0)), (''style'', StrList [''bold''])]]
     else if mtyp e = ''strike'' then
       [[(''tag'', Str ''text''), (''text'', Str (groups e ! 0)), (''style'', StrList [''lineThrough''])]]
     else [])"

lemma find_index1:
  assumes "wf_re r" "ngroups r = 1" "FindStringSubmatchIndex r s = Some loc"
  shows "\<exists>i e a b. loc = [i, e, a, b] \<and> i + minw r \<le> e \<and> e \<le> length s \<and> i \<le> a \<and> a < b \<and> b \<le> e"
proof -
  from assms(3) obtain i e rest caps where f: "search r 0 s = Some (i, (e, rest, caps))"
    and loc: "loc = i # e # concat (map (\<lambda>(a, b). [a, b]) caps)"
    by (auto simp: FindStringSubmatchIndex_def split: option.splits)
  from search_reaches[OF assms(1) f] have r: "i \<le> length s" "reaches r (i, drop i s, []) (e, rest, caps)"
    by auto
  with assms(2) obtain a b where "caps = [(a, b)]" "i \<le> a" "a < b" "b \<le> e"
    by (auto simp: reaches_def length_Suc_conv)
  moreover from r have "i + minw r \<le> e" "e \<le> length s" by (auto simp: reaches_def)
  ultimately show ?thesis using loc by simp
qed

lemma find_index2:
  assumes "wf_re r" "ngroups r = 2" "FindStringSubmatchIndex r s = Some loc"
  shows "\<exists>i e a b c d. loc = [i, e, a, b, c, d] \<and> i + minw r \<le> e \<and> e \<le> length s \<and>
           i \<le> a \<and> a < b \<and> b \<le> e \<and> i \<le> c \<and> c < d \<and> d \<le> e"
proof -
  from assms(3) obtain i e rest caps where f: "search r 0 s = Some (i, (e, rest, caps))"
    and loc: "loc = i # e # concat (map (\<lambda>(a, b). [a, b]) caps)"
    by (auto simp: FindStringSubmatchIndex_def split: option.splits)
  from search_reaches[OF assms(1) f] have r: "i \<le> length s" "reaches r (i, drop i s, []) (e, rest, caps)"
    by auto
  with assms(2) obtain a b c d where "caps = [(a, b), (c, d)]" "i \<le> a" "a < b" "b \<le> e" "i \<le> c" "c < d" "d \<le> e"
    by (auto simp: reaches_def length_Suc_conv numeral_2_eq_2)
  moreover from r have "i + minw r \<le> e" "e \<le> length s" by (auto simp: reaches_def)
  ultimately show ?thesis using loc by simp
qed

lemma slice_nonempty: "a < b \<Longrightarrow> b \<le> length s \<Longrightarrow> slice s a b \<noteq> []"
  by (simp add: slice_def)

lemma wf_patterns:
  "wf_re reMdLink" "wf_re reInlineCode" "wf_re (delimited d)" "wf_re reMdHeading" "wf_re reMdItalic"
  by (simp_all add: reMdLink_def reInlineCode_def delimited_def reMdHeading_def reMdItalic_def)

lemma ngroups_patterns:
  "ngroups reMdLink = 2" "ngroups reInlineCode = 1" "ngroups (delimited d) = 1" "ngroups reMdHeading = 1"
  by (simp_all add: reMdLink_def reInlineCode_def delimited_def reMdHeading_def)

lemma minw_patterns:
  "minw reMdLink = 6" "minw reInlineCode = 3" "minw (delimited d) = 5" "minw reMdHeading = 3"
  by (simp_all add: reMdLink_def reInlineCode_def delimited_def reMdHeading_def)

subsection \<open>The selection as the specification words it\<close>

text \<open>
  The candidates of one iteration, in the order the loop body evaluates them: the leftmost
  match of each of the five patterns in the remaining text, as the \<open>match\<close> value the
  loop body builds for it.
\<close>

definition linkCandidate :: "string \<Rightarrow> match option" where
  "linkCandidate remaining =
     map_option (\<lambda>loc. \<lparr>start = loc ! 0, endp = loc ! 1, mtyp = ''link'',
                         groups = [slice remaining (loc ! 2) (loc ! 3),
                                   slice remaining (loc ! 4) (loc ! 5)]\<rparr>)
       (FindStringSubmatchIndex reMdLink remaining)"

definition groupCandidate :: "re \<Rightarrow> string \<Rightarrow> string \<Rightarrow> match option" where
  "groupCandidate r t remaining =
     map_option (\<lambda>loc. \<lparr>start = loc ! 0, endp = loc ! 1, mtyp = t,
                         groups = [slice remaining (loc ! 2) (loc ! 3)]\<rparr>)
       (FindStringSubmatchIndex r remaining)"

definition candidates :: "string \<Rightarrow> match option list" where
  "candidates remaining =
     [linkCandidate remaining,
      groupCandidate reInlineCode ''code'' remaining,
      groupCandidate reMdBoldStar ''bold'' remaining,
      groupCandidate reMdBoldUnder ''bold'' remaining,
      groupCandidate reMdStrike ''strike'' remaining]"

definition selected :: "match option list \<Rightarrow> match \<Rightarrow> bool" where
  \<comment> \<open>\<open>m\<close> is the match of some candidate \<open>k\<close>, no candidate's match starts before it, and
      the match of every candidate evaluated before \<open>k\<close> starts strictly after it\<close>
  "selected cs m =
     (\<exists>k < length cs. cs ! k = Some m \<and>
        (\<forall>j < length cs. \<forall>m'. cs ! j = Some m' \<longrightarrow>
            start m \<le> start m' \<and> (j < k \<longrightarrow> start m < start m')))"

definition orEarlier :: "match option \<Rightarrow> match option \<Rightarrow> match option" where
  \<comment> \<open>one step of the competition: a candidate replaces the current choice only when
      its match starts strictly before\<close>
  "orEarlier cur cand =
     (case cand of
        None \<Rightarrow> cur
      | Some m \<Rightarrow> (case cur of
                     None \<Rightarrow> Some m
                   | Some e \<Rightarrow> if start m < start e then Some m else cur))"

lemma orEarlier_simps:
  "orEarlier cur None = cur"
  "orEarlier None (Some m) = Some m"
  "orEarlier (Some e) (Some m) = (if start m < start e then Some m else Some e)"
  by (simp_all add: orEarlier_def)

lemma earliest_fold: "earliest remaining = foldl orEarlier None (candidates remaining)"
  by (simp add: earliest_def candidates_def linkCandidate_def groupCandidate_def orEarlier_def
      closer_def split: option.splits)

lemma foldl_orEarlier_None:
  "foldl orEarlier None cs = None \<longleftrightarrow> (\<forall>c \<in> set cs. c = None)"
proof (induction cs rule: rev_induct)
  case Nil
  show ?case by simp
next
  case (snoc x xs)
  then show ?case
    by (cases x; cases "foldl orEarlier None xs") (auto simp: orEarlier_simps)
qed

lemma foldl_orEarlier_selected:
  "foldl orEarlier None cs = Some m \<Longrightarrow> selected cs m"
proof (induction cs arbitrary: m rule: rev_induct)
  case Nil
  then show ?case by simp
next
  case (snoc c cs)
  show ?case
  proof (cases c)
    case None
    with snoc.prems have "foldl orEarlier None cs = Some m" by (simp add: orEarlier_simps)
    then have "selected cs m" by (rule snoc.IH)
    then obtain k where k: "k < length cs" "cs ! k = Some m"
      "\<forall>j < length cs. \<forall>m'. cs ! j = Some m' \<longrightarrow> start m \<le> start m' \<and> (j < k \<longrightarrow> start m < start m')"
      by (auto simp: selected_def)
    show ?thesis unfolding selected_def
    proof (intro exI[of _ k] conjI allI impI)
      show "k < length (cs @ [c])" using k by simp
      show "(cs @ [c]) ! k = Some m" using k by (simp add: nth_append)
    next
      fix j m' assume "j < length (cs @ [c])" "(cs @ [c]) ! j = Some m'"
      with None have "j < length cs" "cs ! j = Some m'"
        by (auto simp: nth_append less_Suc_eq split: if_splits)
      with k have "start m \<le> start m' \<and> (j < k \<longrightarrow> start m < start m')" by blast
      then show "start m \<le> start m'" "j < k \<Longrightarrow> start m < start m'" by simp_all
    qed
  next
    case (Some n)
    show ?thesis
    proof (cases "foldl orEarlier None cs")
      case None
      with Some snoc.prems have mn: "m = n" by (simp add: orEarlier_simps)
      from None have allN: "\<forall>c \<in> set cs. c = None" by (simp add: foldl_orEarlier_None)
      show ?thesis unfolding selected_def
      proof (intro exI[of _ "length cs"] conjI allI impI)
        show "length cs < length (cs @ [c])" by simp
        show "(cs @ [c]) ! length cs = Some m" using Some mn by simp
      next
        fix j m' assume j: "j < length (cs @ [c])" "(cs @ [c]) ! j = Some m'"
        have "\<not> j < length cs"
        proof
          assume "j < length cs"
          with j have "cs ! j = Some m'" by (simp add: nth_append)
          with allN \<open>j < length cs\<close> show False by (metis nth_mem option.distinct(1))
        qed
        with j have "j = length cs" by simp
        with j Some mn show "start m \<le> start m'" "j < length cs \<Longrightarrow> start m < start m'" by auto
      qed
    next
      case (Some e)
      then have "selected cs e" by (rule snoc.IH)
      then obtain k where k: "k < length cs" "cs ! k = Some e"
        "\<forall>j < length cs. \<forall>m'. cs ! j = Some m' \<longrightarrow> start e \<le> start m' \<and> (j < k \<longrightarrow> start e < start m')"
        by (auto simp: selected_def)
      show ?thesis
      proof (cases "start n < start e")
        case True
        with Some \<open>c = Some n\<close> snoc.prems have mn: "m = n" by (simp add: orEarlier_simps)
        show ?thesis unfolding selected_def
        proof (intro exI[of _ "length cs"] conjI allI impI)
          show "length cs < length (cs @ [c])" by simp
          show "(cs @ [c]) ! length cs = Some m" using \<open>c = Some n\<close> mn by simp
        next
          fix j m' assume j: "j < length (cs @ [c])" "(cs @ [c]) ! j = Some m'"
          show "start m \<le> start m'"
          proof (cases "j < length cs")
            case True
            with j have "cs ! j = Some m'" by (simp add: nth_append)
            with k True have "start e \<le> start m'" by auto
            with \<open>start n < start e\<close> mn show ?thesis by simp
          next
            case False
            with j have "j = length cs" by simp
            with j \<open>c = Some n\<close> mn show ?thesis by simp
          qed
          assume jl: "j < length cs"
          with j have "cs ! j = Some m'" by (simp add: nth_append)
          with k jl have "start e \<le> start m'" by auto
          with \<open>start n < start e\<close> mn show "start m < start m'" by simp
        qed
      next
        case False
        with Some \<open>c = Some n\<close> snoc.prems have me: "m = e" by (simp add: orEarlier_simps)
        show ?thesis unfolding selected_def
        proof (intro exI[of _ k] conjI allI impI)
          show "k < length (cs @ [c])" using k by simp
          show "(cs @ [c]) ! k = Some m" using k me by (simp add: nth_append)
        next
          fix j m' assume j: "j < length (cs @ [c])" "(cs @ [c]) ! j = Some m'"
          show "start m \<le> start m'"
          proof (cases "j < length cs")
            case True
            with j have "cs ! j = Some m'" by (simp add: nth_append)
            with k True me show ?thesis by auto
          next
            case F: False
            with j have "j = length cs" by simp
            with j \<open>c = Some n\<close> have "m' = n" by simp
            with False me show ?thesis by simp
          qed
          assume jk: "j < k"
          with k have jl: "j < length cs" by simp
          with j have "cs ! j = Some m'" by (simp add: nth_append)
          with k jl jk have "start e < start m'" by blast
          with me show "start m < start m'" by simp
        qed
      qed
    qed
  qed
qed

lemma selected_unique: "selected cs m \<Longrightarrow> selected cs m' \<Longrightarrow> m = m'"
proof -
  assume "selected cs m" "selected cs m'"
  then obtain k k' where k: "k < length cs" "cs ! k = Some m"
      "\<forall>j < length cs. \<forall>n. cs ! j = Some n \<longrightarrow> start m \<le> start n \<and> (j < k \<longrightarrow> start m < start n)"
    and k': "k' < length cs" "cs ! k' = Some m'"
      "\<forall>j < length cs. \<forall>n. cs ! j = Some n \<longrightarrow> start m' \<le> start n \<and> (j < k' \<longrightarrow> start m' < start n)"
    unfolding selected_def by blast
  have "\<not> k < k'" using k k' by (metis leD)
  moreover have "\<not> k' < k" using k k' by (metis leD)
  ultimately have "k = k'" by simp
  with k k' show "m = m'" by simp
qed

lemma selected_iff_fold: "selected cs m \<longleftrightarrow> foldl orEarlier None cs = Some m"
proof
  assume s: "selected cs m"
  then have "\<not> (\<forall>c \<in> set cs. c = None)" by (auto simp: selected_def dest: nth_mem)
  then obtain m' where f: "foldl orEarlier None cs = Some m'"
    using foldl_orEarlier_None[of cs] by (cases "foldl orEarlier None cs") auto
  then have "selected cs m'" by (rule foldl_orEarlier_selected)
  with s have "m = m'" by (rule selected_unique)
  with f show "foldl orEarlier None cs = Some m" by simp
qed (rule foldl_orEarlier_selected)

subsection \<open>What a selected match satisfies\<close>

lemma linkCandidate_Some:
  assumes "linkCandidate remaining = Some m"
  shows "mtyp m = ''link'' \<and> start m + 6 \<le> endp m \<and> endp m \<le> length remaining \<and>
         (\<exists>t h. groups m = [t, h] \<and> t \<noteq> [] \<and> h \<noteq> [])"
proof -
  from assms obtain loc where loc: "FindStringSubmatchIndex reMdLink remaining = Some loc"
    and m: "m = \<lparr>start = loc ! 0, endp = loc ! 1, mtyp = ''link'',
                  groups = [slice remaining (loc ! 2) (loc ! 3), slice remaining (loc ! 4) (loc ! 5)]\<rparr>"
    by (auto simp: linkCandidate_def)
  from find_index2[OF wf_patterns(1) ngroups_patterns(1) loc] obtain i e a b c d where
    l: "loc = [i, e, a, b, c, d]" "i + 6 \<le> e" "e \<le> length remaining"
       "a < b" "b \<le> e" "c < d" "d \<le> e"
    by (auto simp: minw_patterns)
  then have "slice remaining a b \<noteq> []" "slice remaining c d \<noteq> []"
    by (simp_all add: slice_nonempty)
  with l m show ?thesis by simp
qed

lemma groupCandidate_Some:
  assumes "wf_re r" "ngroups r = 1" "groupCandidate r t remaining = Some m"
  shows "mtyp m = t \<and> start m + minw r \<le> endp m \<and> endp m \<le> length remaining \<and>
         (\<exists>g. groups m = [g] \<and> g \<noteq> [])"
proof -
  from assms(3) obtain loc where loc: "FindStringSubmatchIndex r remaining = Some loc"
    and m: "m = \<lparr>start = loc ! 0, endp = loc ! 1, mtyp = t,
                  groups = [slice remaining (loc ! 2) (loc ! 3)]\<rparr>"
    by (auto simp: groupCandidate_def)
  from find_index1[OF assms(1,2) loc] obtain i e a b where
    l: "loc = [i, e, a, b]" "i + minw r \<le> e" "e \<le> length remaining" "a < b" "b \<le> e"
    by auto
  then have "slice remaining a b \<noteq> []"
    by (simp add: slice_nonempty)
  with l m show ?thesis by simp
qed

definition goodMatch :: "string \<Rightarrow> match \<Rightarrow> bool" where
  "goodMatch remaining m \<longleftrightarrow>
     start m + 3 \<le> endp m \<and> endp m \<le> length remaining \<and>
     (mtyp m = ''link'' \<and> (\<exists>t h. groups m = [t, h] \<and> t \<noteq> [] \<and> h \<noteq> []) \<or>
      (mtyp m = ''code'' \<or> mtyp m = ''bold'' \<or> mtyp m = ''strike'') \<and>
      (\<exists>g. groups m = [g] \<and> g \<noteq> []))"

lemma candidates_good:
  assumes "Some m \<in> set (candidates remaining)"
  shows "goodMatch remaining m"
proof -
  have d: "wf_re reMdBoldStar" "wf_re reMdBoldUnder" "wf_re reMdStrike"
    "ngroups reMdBoldStar = 1" "ngroups reMdBoldUnder = 1" "ngroups reMdStrike = 1"
    "minw reMdBoldStar = 5" "minw reMdBoldUnder = 5" "minw reMdStrike = 5"
    by (simp_all add: reMdBoldStar_def reMdBoldUnder_def reMdStrike_def wf_patterns
        ngroups_patterns minw_patterns)
  from assms consider "linkCandidate remaining = Some m"
    | "groupCandidate reInlineCode ''code'' remaining = Some m"
    | "groupCandidate reMdBoldStar ''bold'' remaining = Some m"
    | "groupCandidate reMdBoldUnder ''bold'' remaining = Some m"
    | "groupCandidate reMdStrike ''strike'' remaining = Some m"
    by (auto simp: candidates_def)
  then show ?thesis
  proof cases
    case 1
    from linkCandidate_Some[OF this] show ?thesis by (auto simp: goodMatch_def)
  next
    case 2
    from groupCandidate_Some[OF wf_patterns(2) ngroups_patterns(2) this] show ?thesis
      by (auto simp: goodMatch_def minw_patterns)
  next
    case 3
    from groupCandidate_Some[OF d(1) d(4) this] show ?thesis
      by (auto simp: goodMatch_def d)
  next
    case 4
    from groupCandidate_Some[OF d(2) d(5) this] show ?thesis
      by (auto simp: goodMatch_def d)
  next
    case 5
    from groupCandidate_Some[OF d(3) d(6) this] show ?thesis
      by (auto simp: goodMatch_def d)
  qed
qed

lemma earliest_good: "earliest remaining = Some m \<Longrightarrow> goodMatch remaining m"
proof -
  assume "earliest remaining = Some m"
  then have "selected (candidates remaining) m"
    by (simp add: earliest_fold foldl_orEarlier_selected)
  then have "Some m \<in> set (candidates remaining)"
    unfolding selected_def by (metis nth_mem)
  then show ?thesis by (rule candidates_good)
qed

function inlineLoop :: "string \<Rightarrow> postElement list \<Rightarrow> postElement list" where
  "inlineLoop remaining elements =
     (if remaining \<noteq> [] then
        (case earliest remaining of
           None \<Rightarrow>
             (if remaining \<noteq> [] then elements @ [[(''tag'', Str ''text''), (''text'', Str remaining)]]
              else elements)
         | Some e \<Rightarrow>
             (let elements =
                    (if start e > 0
                     then elements @ [[(''tag'', Str ''text''), (''text'', Str (take (start e) remaining))]]
                     else elements);
                  elements = elements @ matched e
              in inlineLoop (drop (endp e) remaining) elements))
      else elements)"
  by pat_completeness auto
termination
proof (relation "measure (\<lambda>(remaining, elements). length remaining)")
  fix remaining :: string and elements :: "postElement list" and e x xa
  assume "remaining \<noteq> []" "earliest remaining = Some e"
  then have "0 < endp e" by (auto dest!: earliest_good simp: goodMatch_def)
  with \<open>remaining \<noteq> []\<close>
  show "((drop (endp e) remaining, xa), remaining, elements)
          \<in> measure (\<lambda>(remaining, elements). length remaining)"
    by simp
qed simp

declare inlineLoop.simps [simp del]

definition bullet :: string where
  \<comment> \<open>the UTF-8 bytes of \<open>"\<bullet> "\<close>: U+2022 and a space\<close>
  "bullet = [CHR 0xE2, CHR 0x80, CHR 0xA2, CHR 0x20]"

definition isDigit :: "char \<Rightarrow> bool" where
  \<comment> \<open>\<open>c >= '0' && c <= '9'\<close>\<close>
  "isDigit c \<longleftrightarrow> 48 \<le> (of_char c :: nat) \<and> (of_char c :: nat) \<le> 57"

definition stripListMarkers :: "string \<Rightarrow> string" where
  \<comment> \<open>the head of \<open>parseInlineElements\<close>, up to \<open>remaining := line\<close>; the branch for a
      numbered list has an empty body\<close>
  "stripListMarkers line0 =
     (let line = TrimSpace line0;
          line = (if HasPrefix line ''- '' \<or> HasPrefix line ''* '' then bullet @ drop 2 line
                  else line);
          line = (if length line > 2 \<and> isDigit (line ! 0) \<and> line ! 1 = CHR ''.'' then line
                  else line)
      in line)"

definition parseInlineElements :: "string \<Rightarrow> postElement list" where
  "parseInlineElements line = inlineLoop (stripListMarkers line) []"

function fenceLines :: "string list \<Rightarrow> nat \<Rightarrow> string list \<Rightarrow> nat \<times> string list" where
  \<comment> \<open>the inner loop of a fenced block: collects lines up to the next fence line or the end\<close>
  "fenceLines lines i codeLines =
     (if i < length lines \<and> \<not> HasPrefix (TrimSpace (lines ! i)) ''```''
      then fenceLines lines (i + 1) (codeLines @ [lines ! i])
      else (i, codeLines))"
  by pat_completeness auto
termination
  by (relation "measure (\<lambda>(lines, i, codeLines). length lines - i)") auto

declare fenceLines.simps [simp del]

lemma fenceLines_ge: "i \<le> fst (fenceLines lines i codeLines)"
proof (induction lines i codeLines rule: fenceLines.induct)
  case (1 lines i codeLines)
  show ?case
  proof (cases "i < length lines \<and> \<not> HasPrefix (TrimSpace (lines ! i)) ''```''")
    case True
    with 1 have "i + 1 \<le> fst (fenceLines lines (i + 1) (codeLines @ [lines ! i]))" by simp
    with True show ?thesis by (subst fenceLines.simps) simp
  next
    case False
    then show ?thesis by (subst fenceLines.simps) auto
  qed
qed

function postLoop :: "string list \<Rightarrow> nat \<Rightarrow> postElement list list \<Rightarrow> postElement list list" where
  "postLoop lines i contentLines =
     (if i < length lines then
        (let line = lines ! i in
         if HasPrefix (TrimSpace line) ''```'' then
           (let (j, codeLines) = fenceLines lines (i + 1) [];
                j = (if j < length lines then j + 1 else j);
                codeText = Join codeLines
            in postLoop lines j
                 (contentLines @
                    [[[(''tag'', Str ''text''), (''text'', Str codeText),
                       (''style'', StrList [''code_block''])]]]))
         else
           (case FindStringSubmatch reMdHeading line of
              Some match \<Rightarrow>
                postLoop lines (i + 1)
                  (contentLines @
                     [[[(''tag'', Str ''text''), (''text'', Str (match ! 1)),
                        (''style'', StrList [''bold''])]]])
            | None \<Rightarrow>
                if TrimSpace line = [] then
                  postLoop lines (i + 1)
                    (contentLines @ [[[(''tag'', Str ''text''), (''text'', Str [])]]])
                else
                  (let elements = parseInlineElements line
                   in postLoop lines (i + 1)
                        (if length elements > 0 then contentLines @ [elements]
                         else contentLines))))
      else contentLines)"
  by pat_completeness auto
termination
  apply (relation "measure (\<lambda>(lines, i, contentLines). length lines - i)")
  apply auto
  subgoal premises p for lines i a b xb y
  proof -
    have "fst (fenceLines lines (Suc i) []) = xb" by (simp add: p(4)[symmetric])
    with fenceLines_ge[of "Suc i" lines "[]"] have "Suc i \<le> xb" by simp
    with p(1) p(5) show ?thesis by arith
  qed
  done

declare postLoop.simps [simp del]

definition contentLinesOf :: "string \<Rightarrow> postElement list list" where
  \<comment> \<open>the value of \<open>contentLines\<close> when the loop of \<open>markdownToFeishuPost\<close> ends\<close>
  "contentLinesOf text = postLoop (Split text) 0 []"

definition postOf :: "string \<Rightarrow> any" where
  \<comment> \<open>the map \<open>post\<close> that \<open>markdownToFeishuPost\<close> hands to \<open>json.Marshal\<close>\<close>
  "postOf text =
     Obj [(''zh_cn'', Obj [(''content'', Arr (map (\<lambda>l. Arr (map Obj l)) (contentLinesOf text)))])]"

text \<open>
  \<open>json.Marshal\<close> is a parameter: a function from the value to the encoded string or an
  error. A Go result \<open>(value, err)\<close> is a sum, \<open>Inl\<close> the error.
\<close>

definition markdownToFeishuPost :: "(any \<Rightarrow> 'e + string) \<Rightarrow> string \<Rightarrow> 'e + string" where
  "markdownToFeishuPost Marshal text =
     (let lines = Split text;
          contentLines = postLoop lines 0 [];
          post = Obj [(''zh_cn'',
                   Obj [(''content'', Arr (map (\<lambda>l. Arr (map Obj l)) contentLines))])]
      in Marshal post)"

lemma markdownToFeishuPost_eq: "markdownToFeishuPost Marshal text = Marshal (postOf text)"
  by (simp add: markdownToFeishuPost_def postOf_def contentLinesOf_def)

definition MsgTypePost :: string where
  \<comment> \<open>\<open>larkim.MsgTypePost\<close>\<close>
  "MsgTypePost = ''post''"

definition MsgTypeText :: string where
  \<comment> \<open>\<open>larkim.MsgTypeText\<close>\<close>
  "MsgTypeText = ''text''"

definition buildFeishuContent :: "(any \<Rightarrow> 'e + string) \<Rightarrow> string \<Rightarrow> 'e + string \<times> string" where
  "buildFeishuContent Marshal content =
     (case markdownToFeishuPost Marshal content of
        Inr postPayload \<Rightarrow> Inr (MsgTypePost, postPayload)
      | Inl _ \<Rightarrow>
          (case Marshal (Obj [(''text'', Str content)]) of
             Inl err \<Rightarrow> Inl err
           | Inr payload \<Rightarrow> Inr (MsgTypeText, payload)))"

section \<open>The claims\<close>

lemma inlineLoop_step:
  "remaining \<noteq> [] \<Longrightarrow> earliest remaining = Some m \<Longrightarrow>
   inlineLoop remaining elements =
     inlineLoop (drop (endp m) remaining)
       ((if start m > 0
         then elements @ [[(''tag'', Str ''text''), (''text'', Str (take (start m) remaining))]]
         else elements) @ matched m)"
  by (subst inlineLoop.simps) (simp add: Let_def)

lemma inlineLoop_last:
  "remaining \<noteq> [] \<Longrightarrow> earliest remaining = None \<Longrightarrow>
   inlineLoop remaining elements = elements @ [[(''tag'', Str ''text''), (''text'', Str remaining)]]"
  by (subst inlineLoop.simps) simp

lemma inlineLoop_empty: "inlineLoop [] elements = elements"
  by (subst inlineLoop.simps) simp

text \<open>
  C1. In every iteration the tokenizer selects, among the matches of the five patterns
  (link, inline code, bold \<open>**\<close>, bold \<open>__\<close>, strikethrough) in the remaining text, the
  one that starts at the smallest offset, and of two matches that start at the same
  offset the one evaluated first; it selects nothing exactly when no pattern matches. The
  loop emits the text before the selected match and the matched element and goes on
  behind the match. The line \<open>See [docs](http://x) and **bold**\<close> yields the plain text
  \<open>See \<close>, the link \<open>docs\<close> to \<open>http://x\<close>, the plain text \<open> and \<close> and the bold text
  \<open>bold\<close>, in this order.
\<close>

theorem parseInlineElements_selects_earliest:
  "(earliest remaining = Some m \<longleftrightarrow> selected (candidates remaining) m) \<and>
   (earliest remaining = None \<longleftrightarrow> (\<forall>c \<in> set (candidates remaining). c = None)) \<and>
   (remaining \<noteq> [] \<and> earliest remaining = Some m \<longrightarrow>
      inlineLoop remaining elements =
        inlineLoop (drop (endp m) remaining)
          ((if start m > 0
            then elements @ [[(''tag'', Str ''text''), (''text'', Str (take (start m) remaining))]]
            else elements) @ matched m)) \<and>
   parseInlineElements ''See [docs](http://x) and **bold**'' =
     [[(''tag'', Str ''text''), (''text'', Str ''See '')],
      [(''tag'', Str ''a''), (''text'', Str ''docs''), (''href'', Str ''http://x'')],
      [(''tag'', Str ''text''), (''text'', Str '' and '')],
      [(''tag'', Str ''text''), (''text'', Str ''bold''), (''style'', StrList [''bold''])]]"
proof (intro conjI)
  show "earliest remaining = Some m \<longleftrightarrow> selected (candidates remaining) m"
    by (simp add: earliest_fold selected_iff_fold)
  show "earliest remaining = None \<longleftrightarrow> (\<forall>c \<in> set (candidates remaining). c = None)"
    by (simp only: earliest_fold foldl_orEarlier_None)
  show "remaining \<noteq> [] \<and> earliest remaining = Some m \<longrightarrow>
      inlineLoop remaining elements =
        inlineLoop (drop (endp m) remaining)
          ((if start m > 0
            then elements @ [[(''tag'', Str ''text''), (''text'', Str (take (start m) remaining))]]
            else elements) @ matched m)"
    using inlineLoop_step by blast
  show "parseInlineElements ''See [docs](http://x) and **bold**'' =
     [[(''tag'', Str ''text''), (''text'', Str ''See '')],
      [(''tag'', Str ''a''), (''text'', Str ''docs''), (''href'', Str ''http://x'')],
      [(''tag'', Str ''text''), (''text'', Str '' and '')],
      [(''tag'', Str ''text''), (''text'', Str ''bold''), (''style'', StrList [''bold''])]]"
    by code_simp
qed

theorem parseInlineElements_selects_earliest_witness:
  "earliest ''x **b** `c`'' = Some \<lparr>start = 2, endp = 7, mtyp = ''bold'', groups = [''b'']\<rparr> \<and>
   selected (candidates ''x **b** `c`'') \<lparr>start = 2, endp = 7, mtyp = ''bold'', groups = [''b'']\<rparr> \<and>
   inlineLoop ''x **b** `c`'' [] =
     inlineLoop '' `c`''
       [[(''tag'', Str ''text''), (''text'', Str ''x '')],
        [(''tag'', Str ''text''), (''text'', Str ''b''), (''style'', StrList [''bold''])]]"
proof -
  let ?m = "\<lparr>start = 2, endp = 7, mtyp = ''bold'', groups = [''b'']\<rparr>"
  have e: "earliest ''x **b** `c`'' = Some ?m" by code_simp
  note t = parseInlineElements_selects_earliest[of "''x **b** `c`''" ?m "[]"]
  from t e have "selected (candidates ''x **b** `c`'') ?m" by blast
  moreover from t e have "inlineLoop ''x **b** `c`'' [] =
        inlineLoop (drop (endp ?m) ''x **b** `c`'')
          ((if start ?m > 0
            then [] @ [[(''tag'', Str ''text''), (''text'', Str (take (start ?m) ''x **b** `c`''))]]
            else []) @ matched ?m)" by blast
  then have "inlineLoop ''x **b** `c`'' [] =
     inlineLoop '' `c`''
       [[(''tag'', Str ''text''), (''text'', Str ''x '')],
        [(''tag'', Str ''text''), (''text'', Str ''b''), (''style'', StrList [''bold''])]]"
    by (simp add: matched_def)
  ultimately show ?thesis using e by simp
qed

subsection \<open>The runs of a line\<close>

definition inlineRun :: "postElement \<Rightarrow> bool" where
  \<comment> \<open>a plain text, a link or a text with one of the three styles, with non-empty text\<close>
  "inlineRun el \<longleftrightarrow>
     (\<exists>t. t \<noteq> [] \<and>
        (el = [(''tag'', Str ''text''), (''text'', Str t)] \<or>
         (\<exists>h. h \<noteq> [] \<and> el = [(''tag'', Str ''a''), (''text'', Str t), (''href'', Str h)]) \<or>
         (\<exists>s. (s = ''code_block'' \<or> s = ''bold'' \<or> s = ''lineThrough'') \<and>
              el = [(''tag'', Str ''text''), (''text'', Str t), (''style'', StrList [s])])))"

lemma matched_good:
  assumes "goodMatch remaining m"
  shows "\<exists>el. matched m = [el] \<and> inlineRun el"
proof -
  from assms consider
      (link) t h where "mtyp m = ''link''" "groups m = [t, h]" "t \<noteq> []" "h \<noteq> []"
    | (one) g where "mtyp m = ''code'' \<or> mtyp m = ''bold'' \<or> mtyp m = ''strike''"
        "groups m = [g]" "g \<noteq> []"
    unfolding goodMatch_def by blast
  then show ?thesis
  proof cases
    case link
    then show ?thesis by (simp add: matched_def inlineRun_def)
  next
    case one
    then show ?thesis by (auto simp: matched_def inlineRun_def)
  qed
qed

lemma inlineLoop_runs:
  "\<forall>el \<in> set elements. inlineRun el \<Longrightarrow> \<forall>el \<in> set (inlineLoop remaining elements). inlineRun el"
proof (induction remaining elements rule: inlineLoop.induct)
  case (1 remaining elements)
  show ?case
  proof (cases "remaining = []")
    case True
    with "1.prems" show ?thesis by (simp add: inlineLoop_empty)
  next
    case ne: False
    show ?thesis
    proof (cases "earliest remaining")
      case None
      with ne "1.prems" show ?thesis by (auto simp: inlineLoop_last inlineRun_def)
    next
      case (Some m)
      let ?els = "(if start m > 0
         then elements @ [[(''tag'', Str ''text''), (''text'', Str (take (start m) remaining))]]
         else elements)"
      from Some have g: "goodMatch remaining m" by (rule earliest_good)
      then obtain el where el: "matched m = [el]" "inlineRun el" using matched_good by blast
      have "\<forall>x \<in> set (?els @ matched m). inlineRun x"
        using "1.prems" el ne by (auto simp: inlineRun_def)
      with "1.IH"[OF ne Some refl refl] have "\<forall>x \<in> set (inlineLoop (drop (endp m) remaining) (?els @ matched m)). inlineRun x"
        by simp
      then show ?thesis by (simp only: inlineLoop_step[OF ne Some])
    qed
  qed
qed

lemma inlineLoop_length: "length elements \<le> length (inlineLoop remaining elements)"
proof (induction remaining elements rule: inlineLoop.induct)
  case (1 remaining elements)
  show ?case
  proof (cases "remaining = []")
    case True
    then show ?thesis by (simp add: inlineLoop_empty)
  next
    case ne: False
    show ?thesis
    proof (cases "earliest remaining")
      case None
      with ne show ?thesis by (simp add: inlineLoop_last)
    next
      case (Some m)
      let ?els = "(if start m > 0
         then elements @ [[(''tag'', Str ''text''), (''text'', Str (take (start m) remaining))]]
         else elements)"
      have "length elements \<le> length (?els @ matched m)" by simp
      also have "\<dots> \<le> length (inlineLoop (drop (endp m) remaining) (?els @ matched m))"
        using "1.IH"[OF ne Some refl refl] by simp
      finally show ?thesis by (simp only: inlineLoop_step[OF ne Some])
    qed
  qed
qed

lemma inlineLoop_emits:
  assumes "remaining \<noteq> []"
  shows "length elements < length (inlineLoop remaining elements)"
proof (cases "earliest remaining")
  case None
  with assms show ?thesis by (simp add: inlineLoop_last)
next
  case (Some m)
  let ?els = "(if start m > 0
     then elements @ [[(''tag'', Str ''text''), (''text'', Str (take (start m) remaining))]]
     else elements)"
  from Some have "goodMatch remaining m" by (rule earliest_good)
  then obtain el where "matched m = [el]" using matched_good by blast
  then have "length elements < length (?els @ matched m)" by simp
  also have "\<dots> \<le> length (inlineLoop (drop (endp m) remaining) (?els @ matched m))"
    by (rule inlineLoop_length)
  finally show ?thesis by (simp only: inlineLoop_step[OF assms Some])
qed

lemma find_submatch1:
  assumes "wf_re r" "ngroups r = 1" "FindStringSubmatch r s = Some match"
  shows "\<exists>w g. match = [w, g] \<and> g \<noteq> []"
proof -
  from assms(3) obtain i e rest caps where f: "search r 0 s = Some (i, (e, rest, caps))"
    and m: "match = slice s i e # map (\<lambda>(a, b). slice s a b) caps"
    by (auto simp: FindStringSubmatch_def split: option.splits)
  from search_reaches[OF assms(1) f] have r: "i \<le> length s" "reaches r (i, drop i s, []) (e, rest, caps)"
    by auto
  with assms(2) obtain a b where c: "caps = [(a, b)]" "i \<le> a" "a < b" "b \<le> e"
    by (auto simp: reaches_def length_Suc_conv)
  moreover from r have "e \<le> length s" by (auto simp: reaches_def)
  ultimately have "slice s a b \<noteq> []" by (simp add: slice_nonempty)
  with m c show ?thesis by simp
qed

definition docLine :: "postElement list \<Rightarrow> bool" where
  \<comment> \<open>a line of non-empty runs, the line of a blank source line, or the line of a fenced
      block without content\<close>
  "docLine l \<longleftrightarrow>
     (l \<noteq> [] \<and> (\<forall>el \<in> set l. inlineRun el)) \<or>
     l = [[(''tag'', Str ''text''), (''text'', Str [])]] \<or>
     l = [[(''tag'', Str ''text''), (''text'', Str []), (''style'', StrList [''code_block''])]]"

lemma parseInlineElements_runs: "\<forall>el \<in> set (parseInlineElements line). inlineRun el"
  unfolding parseInlineElements_def by (rule inlineLoop_runs) simp

lemma postLoop_docLines:
  "\<forall>l \<in> set contentLines. docLine l \<Longrightarrow> \<forall>l \<in> set (postLoop lines i contentLines). docLine l"
proof (induction lines i contentLines rule: postLoop.induct)
  case (1 lines i contentLines)
  show ?case
  proof (cases "i < length lines")
    case False
    with "1.prems" show ?thesis by (subst postLoop.simps) simp
  next
    case lt: True
    show ?thesis
    proof (cases "HasPrefix (TrimSpace (lines ! i)) ''```''")
      case fence: True
      obtain j codeLines where f: "fenceLines lines (i + 1) [] = (j, codeLines)"
        by (cases "fenceLines lines (i + 1) []")
      let ?acc = "contentLines @ [[[(''tag'', Str ''text''), (''text'', Str (Join codeLines)),
                       (''style'', StrList [''code_block''])]]]"
      have "\<forall>l \<in> set ?acc. docLine l" using "1.prems"
        by (auto simp: docLine_def inlineRun_def)
      from "1.IH"(1)[OF lt refl fence f[symmetric] refl refl refl this]
      show ?thesis using lt fence f by (subst postLoop.simps) (simp add: Let_def)
    next
      case nf: False
      show ?thesis
      proof (cases "FindStringSubmatch reMdHeading (lines ! i)")
        case (Some match)
        from find_submatch1[OF wf_patterns(4) ngroups_patterns(4) Some]
        have "match ! 1 \<noteq> []" by auto
        then have "\<forall>l \<in> set (contentLines @ [[[(''tag'', Str ''text''), (''text'', Str (match ! 1)),
                        (''style'', StrList [''bold''])]]]). docLine l" using "1.prems"
          by (auto simp: docLine_def inlineRun_def)
        from "1.IH"(4)[OF lt refl nf Some this]
        show ?thesis using lt nf Some by (subst postLoop.simps) (simp add: Let_def)
      next
        case None
        show ?thesis
        proof (cases "TrimSpace (lines ! i) = []")
          case True
          have "\<forall>l \<in> set (contentLines @ [[[(''tag'', Str ''text''), (''text'', Str [])]]]). docLine l"
            using "1.prems" by (auto simp: docLine_def)
          from "1.IH"(2)[OF lt refl nf None True this]
          show ?thesis using lt nf None True by (subst postLoop.simps) (simp add: Let_def)
        next
          case False
          let ?els = "parseInlineElements (lines ! i)"
          have "\<forall>l \<in> set (if length ?els > 0 then contentLines @ [?els] else contentLines). docLine l"
            using "1.prems" parseInlineElements_runs[of "lines ! i"] by (auto simp: docLine_def)
          from "1.IH"(3)[OF lt refl nf None False refl this]
          show ?thesis using lt nf None False by (subst postLoop.simps) (simp add: Let_def)
        qed
      qed
    qed
  qed
qed

lemma contentLinesOf_docLines: "\<forall>l \<in> set (contentLinesOf text). docLine l"
  unfolding contentLinesOf_def by (rule postLoop_docLines) simp

lemma Join_empty: "Join cs = [] \<longleftrightarrow> cs = [] \<or> cs = [[]]"
  by (induction cs rule: Join.induct) auto

lemma docLine_text:
  assumes "docLine l" "el \<in> set l"
  shows "(\<exists>t. map_of el ''text'' = Some (Str t)) \<and>
         (map_of el ''tag'' = Some (Str ''a'') \<longrightarrow> map_of el ''text'' \<noteq> Some (Str [])) \<and>
         (map_of el ''text'' = Some (Str []) \<longrightarrow>
            l = [[(''tag'', Str ''text''), (''text'', Str [])]] \<or>
            l = [[(''tag'', Str ''text''), (''text'', Str []), (''style'', StrList [''code_block''])]])"
proof -
  from assms consider (runs) "inlineRun el"
    | (blank) "l = [[(''tag'', Str ''text''), (''text'', Str [])]]"
    | (code) "l = [[(''tag'', Str ''text''), (''text'', Str []), (''style'', StrList [''code_block''])]]"
    unfolding docLine_def by blast
  then show ?thesis
  proof cases
    case runs
    then show ?thesis unfolding inlineRun_def by auto
  next
    case blank
    with assms(2) show ?thesis by simp
  next
    case code
    with assms(2) show ?thesis by simp
  qed
qed

lemma docLine_style:
  assumes "docLine l" "el \<in> set l"
  shows "map_of el ''style'' = None \<or>
         map_of el ''style'' = Some (StrList [''code_block'']) \<or>
         map_of el ''style'' = Some (StrList [''bold'']) \<or>
         map_of el ''style'' = Some (StrList [''lineThrough''])"
proof -
  from assms consider (runs) "inlineRun el"
    | (blank) "l = [[(''tag'', Str ''text''), (''text'', Str [])]]"
    | (code) "l = [[(''tag'', Str ''text''), (''text'', Str []), (''style'', StrList [''code_block''])]]"
    unfolding docLine_def by blast
  then show ?thesis
  proof cases
    case runs
    then show ?thesis unfolding inlineRun_def by auto
  next
    case blank
    with assms(2) show ?thesis by simp
  next
    case code
    with assms(2) show ?thesis by simp
  qed
qed

text \<open>
  C7. No run of the document carries the style \<open>italic\<close>: a run has no style or exactly one
  of \<open>code_block\<close>, \<open>bold\<close> and \<open>lineThrough\<close>. The italic pattern is defined, and it matches
  \<open>*a*\<close>, but the tokenizer does not try it: the line \<open>*a*\<close> is one plain text.
\<close>

theorem contentLinesOf_no_italic:
  "(l \<in> set (contentLinesOf text) \<and> el \<in> set l \<longrightarrow>
      (map_of el ''style'' = None \<or>
       map_of el ''style'' = Some (StrList [''code_block'']) \<or>
       map_of el ''style'' = Some (StrList [''bold'']) \<or>
       map_of el ''style'' = Some (StrList [''lineThrough''])) \<and>
      (\<forall>styles. map_of el ''style'' = Some (StrList styles) \<longrightarrow> ''italic'' \<notin> set styles)) \<and>
   FindStringSubmatch reMdItalic ''*a*'' = Some [''*a*'', ''a''] \<and>
   parseInlineElements ''*a*'' = [[(''tag'', Str ''text''), (''text'', Str ''*a*'')]]"
proof (intro conjI impI)
  assume a: "l \<in> set (contentLinesOf text) \<and> el \<in> set l"
  then have "docLine l" using contentLinesOf_docLines by blast
  from docLine_style[OF this] a show s: "map_of el ''style'' = None \<or>
       map_of el ''style'' = Some (StrList [''code_block'']) \<or>
       map_of el ''style'' = Some (StrList [''bold'']) \<or>
       map_of el ''style'' = Some (StrList [''lineThrough''])" by simp
  then show "\<forall>styles. map_of el ''style'' = Some (StrList styles) \<longrightarrow> ''italic'' \<notin> set styles"
    by auto
next
  show "FindStringSubmatch reMdItalic ''*a*'' = Some [''*a*'', ''a'']" by code_simp
  show "parseInlineElements ''*a*'' = [[(''tag'', Str ''text''), (''text'', Str ''*a*'')]]"
    by code_simp
qed

theorem contentLinesOf_no_italic_witness:
  "[[(''tag'', Str ''text''), (''text'', Str ''b''), (''style'', StrList [''bold''])]]
     \<in> set (contentLinesOf ''**b**'') \<and>
   ''italic'' \<notin> set [''bold'']"
proof -
  let ?el = "[(''tag'', Str ''text''), (''text'', Str ''b''), (''style'', StrList [''bold''])]"
  have c: "contentLinesOf ''**b**'' = [[?el]]" by code_simp
  then have m: "[?el] \<in> set (contentLinesOf ''**b**'') \<and> ?el \<in> set [?el]" by simp
  from contentLinesOf_no_italic[of "[?el]" "''**b**''" ?el] m
  have "\<forall>styles. map_of ?el ''style'' = Some (StrList styles) \<longrightarrow> ''italic'' \<notin> set styles"
    by blast
  then have "''italic'' \<notin> set [''bold'']" by simp
  with m show ?thesis by simp
qed

lemma stripListMarkers_eq:
  "stripListMarkers line =
     (if HasPrefix (TrimSpace line) ''- '' \<or> HasPrefix (TrimSpace line) ''* ''
      then bullet @ drop 2 (TrimSpace line) else TrimSpace line)"
  by (simp add: stripListMarkers_def Let_def)

lemma stripListMarkers_nonempty: "TrimSpace line \<noteq> [] \<Longrightarrow> stripListMarkers line \<noteq> []"
  by (simp add: stripListMarkers_eq bullet_def)

lemma postLoop_normal:
  assumes "i < length lines" "\<not> HasPrefix (TrimSpace (lines ! i)) ''```''"
    "FindStringSubmatch reMdHeading (lines ! i) = None" "TrimSpace (lines ! i) \<noteq> []"
  shows "postLoop lines i contentLines =
           postLoop lines (i + 1)
             (if length (parseInlineElements (lines ! i)) > 0
              then contentLines @ [parseInlineElements (lines ! i)] else contentLines)"
  using assms by (subst postLoop.simps) (simp add: Let_def)

text \<open>
  C10. A line that is not empty after trimming yields at least one element, so a line
  that reaches the normal-line branch (not a fence line, not a heading, not blank) always
  passes the guard \<open>len(elements) > 0\<close> and adds exactly one line to the document.
\<close>

theorem parseInlineElements_nonempty:
  "(TrimSpace line \<noteq> [] \<longrightarrow> parseInlineElements line \<noteq> []) \<and>
   (i < length lines \<and> \<not> HasPrefix (TrimSpace (lines ! i)) ''```'' \<and>
    FindStringSubmatch reMdHeading (lines ! i) = None \<and> TrimSpace (lines ! i) \<noteq> [] \<longrightarrow>
      length (parseInlineElements (lines ! i)) > 0 \<and>
      postLoop lines i contentLines =
        postLoop lines (i + 1) (contentLines @ [parseInlineElements (lines ! i)]))"
proof -
  have ne: "parseInlineElements l \<noteq> []" if "TrimSpace l \<noteq> []" for l
  proof -
    from that have "stripListMarkers l \<noteq> []" by (rule stripListMarkers_nonempty)
    from inlineLoop_emits[OF this, of "[]"] show ?thesis
      by (auto simp: parseInlineElements_def)
  qed
  show ?thesis
  proof (intro conjI impI)
    assume "TrimSpace line \<noteq> []"
    then show "parseInlineElements line \<noteq> []" by (rule ne)
  next
    assume a: "i < length lines \<and> \<not> HasPrefix (TrimSpace (lines ! i)) ''```'' \<and>
      FindStringSubmatch reMdHeading (lines ! i) = None \<and> TrimSpace (lines ! i) \<noteq> []"
    then show l: "length (parseInlineElements (lines ! i)) > 0" using ne by simp
    from a have "postLoop lines i contentLines =
           postLoop lines (i + 1)
             (if length (parseInlineElements (lines ! i)) > 0
              then contentLines @ [parseInlineElements (lines ! i)] else contentLines)"
      by (intro postLoop_normal) simp_all
    with l show "postLoop lines i contentLines =
        postLoop lines (i + 1) (contentLines @ [parseInlineElements (lines ! i)])"
      by simp
  qed
qed

theorem parseInlineElements_nonempty_witness:
  "TrimSpace '' hi '' \<noteq> [] \<and> parseInlineElements '' hi '' \<noteq> [] \<and>
   (0::nat) < length [''a'', '' hi ''] \<and>
   \<not> HasPrefix (TrimSpace ([''a'', '' hi ''] ! 1)) ''```'' \<and>
   FindStringSubmatch reMdHeading ([''a'', '' hi ''] ! 1) = None \<and>
   postLoop [''a'', '' hi ''] 1 [] = postLoop [''a'', '' hi ''] (1 + 1) ([] @ [parseInlineElements ([''a'', '' hi ''] ! 1)])"
proof -
  have h: "TrimSpace '' hi '' \<noteq> []" by code_simp
  have f: "\<not> HasPrefix (TrimSpace ([''a'', '' hi ''] ! 1)) ''```''" by code_simp
  have g: "FindStringSubmatch reMdHeading ([''a'', '' hi ''] ! 1) = None" by code_simp
  have t: "TrimSpace ([''a'', '' hi ''] ! 1) \<noteq> []" by code_simp
  note t0 = parseInlineElements_nonempty[of "'' hi ''" 1 "[''a'', '' hi '']" "[]"]
  from t0 h have 1: "parseInlineElements '' hi '' \<noteq> []" by blast
  have "(1::nat) < length [''a'', '' hi '']" by simp
  with t0 f g t have 2: "postLoop [''a'', '' hi ''] 1 [] =
      postLoop [''a'', '' hi ''] (1 + 1) ([] @ [parseInlineElements ([''a'', '' hi ''] ! 1)])"
    by blast
  from h 1 f g 2 show ?thesis by simp
qed

lemma five_patterns_span:
  assumes "r = reMdLink \<or> r = reInlineCode \<or> r = reMdBoldStar \<or> r = reMdBoldUnder \<or> r = reMdStrike"
    and "FindStringSubmatchIndex r remaining = Some loc"
  shows "loc ! 0 + 3 \<le> loc ! 1 \<and> loc ! 1 \<le> length remaining"
proof -
  from assms(1) consider (two) "wf_re r" "ngroups r = 2" "3 \<le> minw r"
    | (one) "wf_re r" "ngroups r = 1" "3 \<le> minw r"
    by (auto simp: reMdBoldStar_def reMdBoldUnder_def reMdStrike_def wf_patterns
        ngroups_patterns minw_patterns)
  then show ?thesis
  proof cases
    case two
    from find_index2[OF two(1,2) assms(2)] two(3) show ?thesis by auto
  next
    case one
    from find_index1[OF one(1,2) assms(2)] one(3) show ?thesis by auto
  qed
qed

lemma inlineLoop_total: "inlineLoop_dom (remaining, elements)"
proof -
  have "All inlineLoop_dom"
  proof (relation "measure (\<lambda>(remaining, elements). length remaining)")
    fix remaining :: string and elements :: "postElement list" and e x xa
    assume "remaining \<noteq> []" "earliest remaining = Some e"
    then have "0 < endp e" by (auto dest!: earliest_good simp: goodMatch_def)
    with \<open>remaining \<noteq> []\<close>
    show "((drop (endp e) remaining, xa), remaining, elements)
            \<in> measure (\<lambda>(remaining, elements). length remaining)"
      by simp
  qed simp
  then show ?thesis by simp
qed

text \<open>
  C9. \<open>parseInlineElements\<close> terminates on every line: every argument of the loop lies in
  the domain on which its recursion is well-founded. A match of any of the five patterns
  spans at least three bytes inside the remaining text, so the selected match ends
  strictly behind its start and the text left behind it is strictly shorter.
\<close>

theorem parseInlineElements_terminates:
  "inlineLoop_dom (remaining, elements) \<and>
   (\<forall>r loc. (r = reMdLink \<or> r = reInlineCode \<or> r = reMdBoldStar \<or> r = reMdBoldUnder \<or>
             r = reMdStrike) \<and> FindStringSubmatchIndex r remaining = Some loc \<longrightarrow>
        loc ! 0 + 3 \<le> loc ! 1 \<and> loc ! 1 \<le> length remaining) \<and>
   (\<forall>m. earliest remaining = Some m \<longrightarrow>
        start m + 3 \<le> endp m \<and> start m < endp m \<and> endp m \<le> length remaining \<and>
        length (drop (endp m) remaining) < length remaining)"
proof (intro conjI allI impI)
  show "inlineLoop_dom (remaining, elements)" by (rule inlineLoop_total)
next
  fix r loc
  assume "(r = reMdLink \<or> r = reInlineCode \<or> r = reMdBoldStar \<or> r = reMdBoldUnder \<or>
             r = reMdStrike) \<and> FindStringSubmatchIndex r remaining = Some loc"
  then have "loc ! 0 + 3 \<le> loc ! 1 \<and> loc ! 1 \<le> length remaining"
    using five_patterns_span by blast
  then show "loc ! 0 + 3 \<le> loc ! 1" "loc ! 1 \<le> length remaining" by simp_all
next
  fix m assume "earliest remaining = Some m"
  then have g: "start m + 3 \<le> endp m" "endp m \<le> length remaining"
    by (auto dest!: earliest_good simp: goodMatch_def)
  then show "start m + 3 \<le> endp m" "start m < endp m" "endp m \<le> length remaining"
    "length (drop (endp m) remaining) < length remaining"
    by auto
qed

theorem parseInlineElements_terminates_witness:
  "FindStringSubmatchIndex reInlineCode ''a`b`c'' = Some [1, 4, 2, 3] \<and>
   [1, 4, 2, 3] ! 0 + 3 \<le> [1, 4, 2, 3 :: nat] ! 1 \<and>
   earliest ''a`b`c'' = Some \<lparr>start = 1, endp = 4, mtyp = ''code'', groups = [''b'']\<rparr> \<and>
   length (drop 4 ''a`b`c'') < length ''a`b`c'' \<and>
   inlineLoop_dom (''a`b`c'', [])"
proof -
  let ?m = "\<lparr>start = 1, endp = 4, mtyp = ''code'', groups = [''b'']\<rparr>"
  have f: "FindStringSubmatchIndex reInlineCode ''a`b`c'' = Some [1, 4, 2, 3]" by code_simp
  have e: "earliest ''a`b`c'' = Some ?m" by code_simp
  note t0 = parseInlineElements_terminates[of "''a`b`c''" "[]"]
  from t0 f have 1: "[1, 4, 2, 3] ! 0 + 3 \<le> [1, 4, 2, 3 :: nat] ! 1" by blast
  from t0 e have "length (drop (endp ?m) ''a`b`c'') < length ''a`b`c''" by blast
  then have 2: "length (drop 4 ''a`b`c'') < length ''a`b`c''" by simp
  from t0 have 3: "inlineLoop_dom (''a`b`c'', [])" by blast
  from f e 1 2 3 show ?thesis by blast
qed

text \<open>
  C8. The tokenizer first trims the line. If the trimmed line starts with \<open>- \<close> or \<open>* \<close>,
  these two bytes are replaced by the bullet and a space; otherwise the trimmed line is
  taken as it is. In particular a trimmed line that starts with a digit and a dot is not
  changed. The loop then runs on this text.
\<close>

theorem parseInlineElements_preprocessing:
  "stripListMarkers line =
     (if HasPrefix (TrimSpace line) ''- '' \<or> HasPrefix (TrimSpace line) ''* ''
      then bullet @ drop 2 (TrimSpace line) else TrimSpace line) \<and>
   bullet = [CHR 0xE2, CHR 0x80, CHR 0xA2] @ '' '' \<and>
   (\<forall>d rest. isDigit d \<and> TrimSpace line = d # CHR ''.'' # rest \<longrightarrow>
        stripListMarkers line = TrimSpace line) \<and>
   parseInlineElements line = inlineLoop (stripListMarkers line) []"
proof (intro conjI allI impI)
  show "stripListMarkers line =
     (if HasPrefix (TrimSpace line) ''- '' \<or> HasPrefix (TrimSpace line) ''* ''
      then bullet @ drop 2 (TrimSpace line) else TrimSpace line)"
    by (rule stripListMarkers_eq)
  show "bullet = [CHR 0xE2, CHR 0x80, CHR 0xA2] @ '' ''" by (simp add: bullet_def)
  show "parseInlineElements line = inlineLoop (stripListMarkers line) []"
    by (simp add: parseInlineElements_def)
next
  fix d rest assume a: "isDigit d \<and> TrimSpace line = d # CHR ''.'' # rest"
  then have "d \<noteq> CHR ''-''" "d \<noteq> CHR ''*''" by (auto simp: isDigit_def)
  with a show "stripListMarkers line = TrimSpace line"
    by (simp add: stripListMarkers_eq HasPrefix_def)
qed

theorem parseInlineElements_preprocessing_witness:
  "isDigit CHR ''1'' \<and> TrimSpace ''  1. one '' = CHR ''1'' # CHR ''.'' # '' one'' \<and>
   stripListMarkers ''  1. one '' = ''1. one'' \<and>
   stripListMarkers '' - item '' = [CHR 0xE2, CHR 0x80, CHR 0xA2] @ '' item''"
proof -
  have d: "isDigit CHR ''1''" by (simp add: isDigit_def)
  have t: "TrimSpace ''  1. one '' = CHR ''1'' # CHR ''.'' # '' one''" by code_simp
  note t0 = parseInlineElements_preprocessing[of "''  1. one ''"]
  from t0 d t have "stripListMarkers ''  1. one '' = TrimSpace ''  1. one ''" by blast
  with t have 1: "stripListMarkers ''  1. one '' = ''1. one''" by simp
  have p: "TrimSpace '' - item '' = ''- item''" by code_simp
  from parseInlineElements_preprocessing[of "'' - item ''"]
  have "stripListMarkers '' - item '' =
     (if HasPrefix (TrimSpace '' - item '') ''- '' \<or> HasPrefix (TrimSpace '' - item '') ''* ''
      then bullet @ drop 2 (TrimSpace '' - item '') else TrimSpace '' - item '')" by blast
  then have 2: "stripListMarkers '' - item '' = [CHR 0xE2, CHR 0x80, CHR 0xA2] @ '' item''"
    by (simp add: p HasPrefix_def bullet_def)
  from d t 1 2 show ?thesis by blast
qed

lemma fenceLines_no_fence:
  "i \<le> length lines \<Longrightarrow>
   \<forall>k. i \<le> k \<and> k < length lines \<longrightarrow> \<not> HasPrefix (TrimSpace (lines ! k)) ''```'' \<Longrightarrow>
   fenceLines lines i codeLines = (length lines, codeLines @ drop i lines)"
proof (induction lines i codeLines rule: fenceLines.induct)
  case (1 lines i codeLines)
  show ?case
  proof (cases "i < length lines")
    case True
    with "1.prems" have nf: "\<not> HasPrefix (TrimSpace (lines ! i)) ''```''" by simp
    from True "1.prems" have "fenceLines lines (i + 1) (codeLines @ [lines ! i]) =
        (length lines, (codeLines @ [lines ! i]) @ drop (i + 1) lines)"
      by (intro "1.IH") (auto simp: nf)
    moreover have "lines ! i # drop (Suc i) lines = drop i lines"
      using True by (simp add: Cons_nth_drop_Suc)
    ultimately show ?thesis using True nf by (subst fenceLines.simps) simp
  next
    case False
    with "1.prems" show ?thesis by (subst fenceLines.simps) simp
  qed
qed

lemma postLoop_done: "length lines \<le> i \<Longrightarrow> postLoop lines i contentLines = contentLines"
  by (subst postLoop.simps) simp

text \<open>
  C4. When the line at the head of the loop is a fence line and no later line is one, the
  loop ends with exactly one more line: the single \<open>code_block\<close> run whose text is the join
  of all lines behind the fence line. The result is a value; the converter has no error
  to raise. The text of the fence line, \<open>A\<close> and \<open>B\<close> yields exactly one \<open>code_block\<close> run
  with the text \<open>A\<close>, newline, \<open>B\<close>.
\<close>

theorem unterminated_fence:
  "(i < length lines \<and> HasPrefix (TrimSpace (lines ! i)) ''```'' \<and>
    (\<forall>k. i < k \<and> k < length lines \<longrightarrow> \<not> HasPrefix (TrimSpace (lines ! k)) ''```'') \<longrightarrow>
      fenceLines lines (i + 1) [] = (length lines, drop (i + 1) lines) \<and>
      postLoop lines i contentLines =
        contentLines @
          [[[(''tag'', Str ''text''), (''text'', Str (Join (drop (i + 1) lines))),
             (''style'', StrList [''code_block''])]]]) \<and>
   contentLinesOf (''```'' @ [CHR 0x0A] @ ''A'' @ [CHR 0x0A] @ ''B'') =
     [[[(''tag'', Str ''text''), (''text'', Str (''A'' @ [CHR 0x0A] @ ''B'')),
        (''style'', StrList [''code_block''])]]]"
proof (intro conjI impI)
  assume a: "i < length lines \<and> HasPrefix (TrimSpace (lines ! i)) ''```'' \<and>
    (\<forall>k. i < k \<and> k < length lines \<longrightarrow> \<not> HasPrefix (TrimSpace (lines ! k)) ''```'')"
  then have "fenceLines lines (i + 1) [] = (length lines, [] @ drop (i + 1) lines)"
    by (intro fenceLines_no_fence) auto
  then show f: "fenceLines lines (i + 1) [] = (length lines, drop (i + 1) lines)" by simp
  from a f show "postLoop lines i contentLines =
        contentLines @
          [[[(''tag'', Str ''text''), (''text'', Str (Join (drop (i + 1) lines))),
             (''style'', StrList [''code_block''])]]]"
    by (subst postLoop.simps) (simp add: Let_def postLoop_done)
next
  show "contentLinesOf (''```'' @ [CHR 0x0A] @ ''A'' @ [CHR 0x0A] @ ''B'') =
     [[[(''tag'', Str ''text''), (''text'', Str (''A'' @ [CHR 0x0A] @ ''B'')),
        (''style'', StrList [''code_block''])]]]"
    by code_simp
qed

theorem unterminated_fence_witness:
  "(1::nat) < length [''x'', '' ```go'', ''# A'', ''''] \<and>
   HasPrefix (TrimSpace ([''x'', '' ```go'', ''# A'', ''''] ! 1)) ''```'' \<and>
   postLoop [''x'', '' ```go'', ''# A'', ''''] 1 [] =
     [[[(''tag'', Str ''text''), (''text'', Str (''# A'' @ [CHR 0x0A])),
        (''style'', StrList [''code_block''])]]]"
proof -
  let ?lines = "[''x'', '' ```go'', ''# A'', '''']"
  have l: "(1::nat) < length ?lines" by simp
  have f: "HasPrefix (TrimSpace (?lines ! 1)) ''```''" by code_simp
  have n: "\<forall>k. 1 < k \<and> k < length ?lines \<longrightarrow> \<not> HasPrefix (TrimSpace (?lines ! k)) ''```''"
  proof (intro allI impI)
    fix k assume "1 < k \<and> k < length ?lines"
    then have "k = 2 \<or> k = 3" by auto
    moreover have "\<not> HasPrefix (TrimSpace (?lines ! 2)) ''```''" by code_simp
    moreover have "\<not> HasPrefix (TrimSpace (?lines ! 3)) ''```''" by code_simp
    ultimately show "\<not> HasPrefix (TrimSpace (?lines ! k)) ''```''" by blast
  qed
  from unterminated_fence[of 1 ?lines "[]"] l f n
  have "postLoop ?lines 1 [] =
        [] @ [[[(''tag'', Str ''text''), (''text'', Str (Join (drop (1 + 1) ?lines))),
             (''style'', StrList [''code_block''])]]]" by blast
  then have "postLoop ?lines 1 [] =
     [[[(''tag'', Str ''text''), (''text'', Str (''# A'' @ [CHR 0x0A])),
        (''style'', StrList [''code_block''])]]]" by simp
  with l f show ?thesis by blast
qed

subsection \<open>The heading pattern\<close>

lemma backtrack_Cat_iff:
  "st' \<in> set (backtrack (Cat a b) st) \<longleftrightarrow> (\<exists>m \<in> set (backtrack a st). st' \<in> set (backtrack b m))"
  by auto

lemma run_take:
  assumes "k \<le> run c rest"
  shows "length (take k rest) = k \<and> (\<forall>x \<in> set (take k rest). cmatch c x)"
proof -
  have le: "run c rest \<le> length rest" by (rule run_le)
  have "take k rest = take k (takeWhile (cmatch c) rest)"
    using assms unfolding run_def
    by (metis append_eq_conv_conj takeWhile_dropWhile_id take_all_iff take_append min.absorb2 min.absorb1 take_take length_take)
  then have "set (take k rest) \<subseteq> set (takeWhile (cmatch c) rest)"
    by (metis set_take_subset)
  then have "\<forall>x \<in> set (take k rest). cmatch c x"
    by (auto dest: set_takeWhileD)
  with assms le show ?thesis by simp
qed


lemma backtrack_Rep_iff:
  "st' \<in> set (backtrack (Rep c lo hi) (p, rest, caps)) \<longleftrightarrow>
     (\<exists>k. lo \<le> k \<and> k \<le> hi \<and> k \<le> run c rest \<and> st' = (p + k, drop k rest, caps))"
  by (auto simp: advance_def)

lemma backtrack_Plus_iff:
  "st' \<in> set (backtrack (Plus c) (p, rest, caps)) \<longleftrightarrow>
     (\<exists>k. 1 \<le> k \<and> k \<le> run c rest \<and> st' = (p + k, drop k rest, caps))"
  by (auto simp: advance_def)

lemma backtrack_Group_iff:
  "st' \<in> set (backtrack (Group a) (p, rest, caps)) \<longleftrightarrow>
     (\<exists>q rest' caps'. (q, rest', caps') \<in> set (backtrack a (p, rest, caps)) \<and>
        st' = (q, rest', caps' @ [(p, q)]))"
  by force

lemma backtrack_Eol_iff:
  "st' \<in> set (backtrack Eol (p, rest, caps)) \<longleftrightarrow> rest = [] \<and> st' = (p, rest, caps)"
  by auto

lemma backtrack_Bol_iff:
  "st' \<in> set (backtrack Bol (p, rest, caps)) \<longleftrightarrow> p = 0 \<and> st' = (p, rest, caps)"
  by auto

lemma all_same_replicate: "\<forall>x \<in> set xs. x = c \<Longrightarrow> xs = replicate (length xs) c"
  by (induction xs) auto

definition headingParts :: "string \<Rightarrow> nat \<Rightarrow> string \<Rightarrow> string \<Rightarrow> bool" where
  \<comment> \<open>the line is 1 to 6 hash characters, white space and a non-empty remainder without
      newline\<close>
  "headingParts line h w t \<longleftrightarrow>
     1 \<le> h \<and> h \<le> 6 \<and> w \<noteq> [] \<and> (\<forall>c \<in> set w. cmatch Space c) \<and>
     t \<noteq> [] \<and> CHR 0x0A \<notin> set t \<and> line = replicate h CHR ''#'' @ w @ t"

lemma heading_member:
  assumes "st' \<in> set (backtrack reMdHeading (0, line, []))"
  shows "\<exists>h w t. headingParts line h w t \<and>
           st' = (length line, [], [(h + length w, length line)])"
proof -
  from assms obtain m0 where m0: "m0 \<in> set (backtrack Bol (0, line, []))"
    and r0: "st' \<in> set (backtrack (Cat (Rep (Lit CHR ''#'') 1 6)
                 (Cat (Plus Space) (Cat (Group (Plus AnyChar)) Eol))) m0)"
    unfolding reMdHeading_def backtrack_Cat_iff by blast
  from m0 have m0': "m0 = (0, line, [])" by (simp only: backtrack_Bol_iff)
  from r0 obtain m1 where m1: "m1 \<in> set (backtrack (Rep (Lit CHR ''#'') 1 6) (0, line, []))"
    and r1: "st' \<in> set (backtrack (Cat (Plus Space) (Cat (Group (Plus AnyChar)) Eol)) m1)"
    unfolding m0' backtrack_Cat_iff by blast
  from m1 obtain h where h: "1 \<le> h" "h \<le> 6" "h \<le> run (Lit CHR ''#'') line"
    "m1 = (h, drop h line, [])"
    unfolding backtrack_Rep_iff by auto
  from r1 obtain m2 where m2: "m2 \<in> set (backtrack (Plus Space) m1)"
    and r2: "st' \<in> set (backtrack (Cat (Group (Plus AnyChar)) Eol) m2)"
    unfolding backtrack_Cat_iff by blast
  from m2 obtain k where k: "1 \<le> k" "k \<le> run Space (drop h line)"
    "m2 = (h + k, drop k (drop h line), [])"
    unfolding h(4) backtrack_Plus_iff by auto
  from r2 obtain m3 where m3: "m3 \<in> set (backtrack (Group (Plus AnyChar)) m2)"
    and r3: "st' \<in> set (backtrack Eol m3)"
    unfolding backtrack_Cat_iff by blast
  let ?rest = "drop k (drop h line)"
  from m3 obtain n where n: "1 \<le> n" "n \<le> run AnyChar ?rest"
    "m3 = (h + k + n, drop n ?rest, [(h + k, h + k + n)])"
    unfolding k(3) backtrack_Group_iff backtrack_Plus_iff by auto
  from r3 have e: "drop n ?rest = []" "st' = (h + k + n, [], [(h + k, h + k + n)])"
    unfolding n(3) backtrack_Eol_iff by auto
  let ?a = "take h line" and ?w = "take k (drop h line)"
  from run_take[OF h(3)] have a: "length ?a = h" "\<forall>x \<in> set ?a. x = CHR ''#''" by auto
  from run_take[OF k(2)] have w: "length ?w = k" "\<forall>x \<in> set ?w. cmatch Space x" by auto
  from run_take[OF n(2)] have t: "length (take n ?rest) = n" "\<forall>x \<in> set (take n ?rest). cmatch AnyChar x"
    by auto
  from e(1) have tt: "take n ?rest = ?rest" by simp
  have line: "line = ?a @ ?w @ ?rest"
    by (simp only: append_take_drop_id)
  from a have ra: "?a = replicate h CHR ''#''" by (metis all_same_replicate)
  from t tt have lr: "length ?rest = n" and nr: "\<forall>x \<in> set ?rest. cmatch AnyChar x"
    by (simp_all only:)
  have "length line = length (?a @ ?w @ ?rest)"
    by (rule arg_cong[where f = length]) (rule line)
  also have "\<dots> = length ?a + (length ?w + length ?rest)" by (simp only: length_append)
  also have "\<dots> = h + k + n" by (simp only: a(1) w(1) lr add.assoc)
  finally have len: "length line = h + k + n" .
  have "headingParts line h ?w ?rest"
    unfolding headingParts_def
  proof (intro conjI)
    show "1 \<le> h" "h \<le> 6" by fact+
    show "?w \<noteq> []" using w(1) k(1) by auto
    show "\<forall>c \<in> set ?w. cmatch Space c" by fact
    show "?rest \<noteq> []" using lr n(1) by auto
    show "CHR 0x0A \<notin> set ?rest" using nr by auto
    show "line = replicate h CHR ''#'' @ ?w @ ?rest" using line ra by (simp only:)
  qed
  moreover have "st' = (length line, [], [(h + length ?w, length line)])"
    by (simp only: e(2) len w(1))
  ultimately show ?thesis by blast
qed

lemma search_anchored: "0 < p \<Longrightarrow> search (Cat Bol r) p s = None"
proof (induction "Cat Bol r" p s rule: search.induct)
  case (1 p rest)
  have b: "backtrack (Cat Bol r) (p, rest, []) = []" using "1.prems" by simp
  show ?case
  proof (cases "rest = []")
    case True
    from b show ?thesis unfolding True
      by (subst search.simps) (simp del: backtrack.simps)
  next
    case False
    from "1.prems" have "0 < p + runeWidth rest" by simp
    from "1.hyps"[OF b False this] show ?thesis
      by (subst search.simps) (simp add: b False del: backtrack.simps)
  qed
qed

lemma heading_find:
  "FindStringSubmatch reMdHeading line =
     (case backtrack reMdHeading (0, line, []) of
        [] \<Rightarrow> None
      | (e, _, caps) # _ \<Rightarrow> Some (slice line 0 e # map (\<lambda>(a, b). slice line a b) caps))"
proof -
  have "search reMdHeading 0 line =
          (case backtrack reMdHeading (0, line, []) of [] \<Rightarrow> None | st # _ \<Rightarrow> Some (0, st))"
  proof (cases "line = []")
    case True
    then show ?thesis
      by (subst search.simps) (simp del: backtrack.simps split: list.splits)
  next
    case False
    then have "0 < runeWidth line" using runeWidth_bounds[of line] by simp
    then have "search reMdHeading (0 + runeWidth line) (drop (runeWidth line) line) = None"
      unfolding reMdHeading_def by (simp add: search_anchored del: backtrack.simps)
    with False show ?thesis
      by (subst search.simps) (simp del: backtrack.simps split: list.splits)
  qed
  then show ?thesis
    by (auto simp: FindStringSubmatch_def split: list.splits option.splits)
qed

lemma heading_Some:
  assumes "FindStringSubmatch reMdHeading line = Some match"
  shows "\<exists>h w t. headingParts line h w t \<and> match = [line, t]"
proof -
  from assms obtain st sts where b: "backtrack reMdHeading (0, line, []) = st # sts"
    and m: "match = (case st of (e, _, caps) \<Rightarrow> slice line 0 e # map (\<lambda>(a, b). slice line a b) caps)"
    by (auto simp: heading_find split: list.splits)
  from b have "st \<in> set (backtrack reMdHeading (0, line, []))" by simp
  from heading_member[OF this] obtain h w t where p: "headingParts line h w t"
    and st: "st = (length line, [], [(h + length w, length line)])" by blast
  from p have "line = replicate h CHR ''#'' @ w @ t" by (simp add: headingParts_def)
  then have "slice line (h + length w) (length line) = t"
    by (simp add: slice_def)
  with m st have "match = [line, t]" by (simp add: slice_def)
  with p show ?thesis by blast
qed

lemma heading_seven:
  "FindStringSubmatch reMdHeading (replicate 7 CHR ''#'' @ rest) = None"
proof (rule ccontr)
  let ?line = "replicate 7 CHR ''#'' @ rest"
  assume "FindStringSubmatch reMdHeading ?line \<noteq> None"
  then obtain match where "FindStringSubmatch reMdHeading ?line = Some match" by auto
  from heading_Some[OF this] obtain h w t where p: "headingParts ?line h w t" by blast
  then have h: "h \<le> 6" "w \<noteq> []" "cmatch Space (hd w)" "?line = replicate h CHR ''#'' @ w @ t"
    by (auto simp: headingParts_def)
  from h(4) have "?line ! h = hd w" using h(2)
    by (simp add: nth_append hd_conv_nth)
  moreover have "?line ! h = CHR ''#''" using h(1) by (simp add: nth_append)
  ultimately have "hd w = CHR ''#''" by simp
  with h(3) show False by simp
qed


lemma first_Cat:
  "backtrack a st = m # ms \<Longrightarrow> backtrack b m = y # ys \<Longrightarrow> \<exists>zs. backtrack (Cat a b) st = y # zs"
  by simp

lemma first_Rep:
  assumes "lo \<le> min hi (run c rest)"
  shows "\<exists>zs. backtrack (Rep c lo hi) (p, rest, caps) =
           (p + min hi (run c rest), drop (min hi (run c rest)) rest, caps) # zs"
  using assms by (simp add: advance_def)

lemma first_Plus:
  assumes "1 \<le> run c rest"
  shows "\<exists>zs. backtrack (Plus c) (p, rest, caps) = (p + run c rest, drop (run c rest) rest, caps) # zs"
  using assms by (simp add: advance_def)

lemma first_Group:
  "backtrack a (p, rest, caps) = (q, rest', caps') # zs \<Longrightarrow>
   \<exists>zs'. backtrack (Group a) (p, rest, caps) = (q, rest', caps' @ [(p, q)]) # zs'"
  by simp

lemma run_append:
  assumes "\<forall>x \<in> set xs. cmatch c x" "ys = [] \<or> \<not> cmatch c (hd ys)"
  shows "run c (xs @ ys) = length xs"
proof -
  from assms(2) have "takeWhile (cmatch c) ys = []" by (cases ys) auto
  with assms(1) show ?thesis by (simp add: run_def takeWhile_append2)
qed

lemma heading_regular:
  assumes "1 \<le> h" "h \<le> 6" "w \<noteq> []" "\<forall>c \<in> set w. cmatch Space c"
    "t \<noteq> []" "CHR 0x0A \<notin> set t" "\<not> cmatch Space (hd t)"
  shows "FindStringSubmatch reMdHeading (replicate h CHR ''#'' @ w @ t) =
           Some [replicate h CHR ''#'' @ w @ t, t]"
proof -
  let ?line = "replicate h CHR ''#'' @ w @ t"
  have hw: "\<not> cmatch (Lit CHR ''#'') (hd (w @ t))"
    using assms(3,4) by (cases w) auto
  have r1: "run (Lit CHR ''#'') ?line = h"
    using run_append[of "replicate h CHR ''#''" "Lit CHR ''#''" "w @ t"] hw by simp
  have r2: "run Space (w @ t) = length w"
    using run_append[of w Space t] assms(4,7) by simp
  have r3: "run AnyChar t = length t"
    using run_append[of t AnyChar "[]"] assms(6) by auto
  have d1: "drop h ?line = w @ t" by simp
  from first_Rep[of 1 6 "Lit CHR ''#''" ?line 0 "[]"] assms(1,2) r1 d1
  obtain z1 where b1: "backtrack (Rep (Lit CHR ''#'') 1 6) (0, ?line, []) = (h, w @ t, []) # z1"
    by (auto simp: min_def simp del: backtrack.simps)
  from first_Plus[of Space "w @ t" h "[]"] r2 assms(3)
  obtain z2 where b2: "backtrack (Plus Space) (h, w @ t, []) = (h + length w, t, []) # z2"
    by (cases w) (auto simp del: backtrack.simps)
  from first_Plus[of AnyChar t "h + length w" "[]"] r3 assms(5)
  obtain z3 where b3: "backtrack (Plus AnyChar) (h + length w, t, []) =
      (h + length w + length t, [], []) # z3"
    by (cases t) (auto simp del: backtrack.simps)
  from first_Group[OF b3]
  obtain z4 where b4: "backtrack (Group (Plus AnyChar)) (h + length w, t, []) =
      (h + length w + length t, [], [(h + length w, h + length w + length t)]) # z4"
    by auto
  have b5: "backtrack Eol (h + length w + length t, [], [(h + length w, h + length w + length t)]) =
      [(h + length w + length t, [], [(h + length w, h + length w + length t)])]" by simp
  from first_Cat[OF b4 b5] obtain z5 where
    c1: "backtrack (Cat (Group (Plus AnyChar)) Eol) (h + length w, t, []) =
      (h + length w + length t, [], [(h + length w, h + length w + length t)]) # z5" by blast
  from first_Cat[OF b2 c1] obtain z6 where
    c2: "backtrack (Cat (Plus Space) (Cat (Group (Plus AnyChar)) Eol)) (h, w @ t, []) =
      (h + length w + length t, [], [(h + length w, h + length w + length t)]) # z6" by blast
  from first_Cat[OF b1 c2] obtain z7 where
    c3: "backtrack (Cat (Rep (Lit CHR ''#'') 1 6) (Cat (Plus Space) (Cat (Group (Plus AnyChar)) Eol)))
           (0, ?line, []) =
      (h + length w + length t, [], [(h + length w, h + length w + length t)]) # z7" by blast
  have b0: "backtrack Bol (0, ?line, []) = [(0, ?line, [])]" by simp
  from first_Cat[OF b0 c3] obtain z8 where
    c4: "backtrack reMdHeading (0, ?line, []) =
      (h + length w + length t, [], [(h + length w, h + length w + length t)]) # z8"
    unfolding reMdHeading_def by blast
  show ?thesis
    by (simp add: heading_find c4 slice_def del: backtrack.simps)
qed

subsection \<open>A line that starts with a hash is no fence line\<close>

lemma leadingSpace_hash: "leadingSpace (CHR ''#'' # s) = None"
  by (simp add: leadingSpace_def spaceRunes_def)

lemma TrimLeft_hash: "TrimLeft (CHR ''#'' # s) = CHR ''#'' # s"
  by (subst TrimLeft.simps) (simp add: leadingSpace_hash)

lemma spaceRunes_no_hash: "e \<in> set spaceRunes \<Longrightarrow> e \<noteq> [] \<and> hd e \<noteq> CHR ''#''"
  by (auto simp: spaceRunes_def)

lemma TrimRight_hash: "\<exists>s'. TrimRight (CHR ''#'' # s) = CHR ''#'' # s'"
proof (induction "length s" arbitrary: s rule: less_induct)
  case less
  show ?case
  proof (cases "trailingSpace (CHR ''#'' # s)")
    case None
    then show ?thesis by (subst TrimRight.simps) simp
  next
    case (Some e)
    then have e: "e \<in> set spaceRunes" "suffix e (CHR ''#'' # s)"
      by (auto simp: trailingSpace_def dest: find_Some_mem)
    from e(1) have ne: "e \<noteq> []" "hd e \<noteq> CHR ''#''" by (auto dest: spaceRunes_no_hash)
    from e(2) obtain pre where pre: "CHR ''#'' # s = pre @ e" by (auto simp: suffix_def)
    with ne obtain pre' where p': "pre = CHR ''#'' # pre'" by (cases pre) auto
    with pre have s: "s = pre' @ e" by simp
    have "take (length (CHR ''#'' # s) - length e) (CHR ''#'' # s) = CHR ''#'' # pre'"
      using pre p' by simp
    moreover have "length pre' < length s" using s ne by simp
    then obtain s' where "TrimRight (CHR ''#'' # pre') = CHR ''#'' # s'" using less by blast
    ultimately show ?thesis using Some by (subst TrimRight.simps) simp
  qed
qed

lemma hash_no_fence: "\<not> HasPrefix (TrimSpace (CHR ''#'' # s)) ''```''"
proof -
  obtain s' where "TrimRight (CHR ''#'' # s) = CHR ''#'' # s'" using TrimRight_hash by blast
  then show ?thesis by (simp add: TrimSpace_def TrimLeft_hash HasPrefix_def)
qed

lemma heading_no_fence:
  assumes "FindStringSubmatch reMdHeading line = Some match"
  shows "\<not> HasPrefix (TrimSpace line) ''```''"
proof -
  from heading_Some[OF assms] obtain h w t where "headingParts line h w t" by blast
  then have "1 \<le> h" "line = replicate h CHR ''#'' @ w @ t" by (auto simp: headingParts_def)
  then obtain s where "line = CHR ''#'' # s" by (cases h) auto
  then show ?thesis by (simp only: hash_no_fence not_False_eq_True)
qed

lemma postLoop_heading:
  assumes "i < length lines" "FindStringSubmatch reMdHeading (lines ! i) = Some match"
  shows "postLoop lines i contentLines =
           postLoop lines (i + 1)
             (contentLines @ [[[(''tag'', Str ''text''), (''text'', Str (match ! 1)),
                                (''style'', StrList [''bold''])]]])"
  using assms heading_no_fence[OF assms(2)] by (subst postLoop.simps) (simp add: Let_def)

lemma parseInlineElements_emits: "TrimSpace l \<noteq> [] \<Longrightarrow> parseInlineElements l \<noteq> []"
proof -
  assume "TrimSpace l \<noteq> []"
  then have "stripListMarkers l \<noteq> []" by (rule stripListMarkers_nonempty)
  from inlineLoop_emits[OF this, of "[]"] show ?thesis
    by (auto simp: parseInlineElements_def)
qed

lemma postLoop_seven:
  assumes "i < length lines" "lines ! i = replicate 7 CHR ''#'' @ rest"
  shows "postLoop lines i contentLines =
           postLoop lines (i + 1) (contentLines @ [parseInlineElements (lines ! i)])"
proof -
  from assms(2) obtain s where s: "lines ! i = CHR ''#'' # s"
    by (simp add: numeral_eq_Suc)
  obtain s' where "TrimRight (CHR ''#'' # s) = CHR ''#'' # s'" using TrimRight_hash by blast
  then have t: "TrimSpace (lines ! i) \<noteq> []" by (simp add: s TrimSpace_def TrimLeft_hash)
  have f: "\<not> HasPrefix (TrimSpace (lines ! i)) ''```''" by (simp only: s hash_no_fence not_False_eq_True)
  have h: "FindStringSubmatch reMdHeading (lines ! i) = None" by (simp only: assms(2) heading_seven)
  from parseInlineElements_emits[OF t] have "length (parseInlineElements (lines ! i)) > 0" by simp
  with postLoop_normal[OF assms(1) f h t, of contentLines] show ?thesis by simp
qed

text \<open>
  C5. The heading pattern matches a line exactly when the line is 1 to 6 hash characters
  at its very start, then white space, then a non-empty remainder without newline; the
  group is such a remainder, and it is the text behind the white space when that text
  does not start with white space itself. At the head of the loop a matching line adds
  exactly one line with one \<open>bold\<close> run whose text is the group. A line that starts with
  seven hash characters does not match and is tokenized as a normal line. So \<open>## Title\<close>
  yields the bold run \<open>Title\<close>, and \<open>####### Title\<close> yields itself as plain text.
\<close>

theorem heading_line:
  "(FindStringSubmatch reMdHeading line = Some match \<longrightarrow>
      (\<exists>h w t. headingParts line h w t \<and> match = [line, t])) \<and>
   (headingParts line h w t \<and> \<not> cmatch Space (hd t) \<longrightarrow>
      FindStringSubmatch reMdHeading line = Some [line, t]) \<and>
   (i < length lines \<and> FindStringSubmatch reMdHeading (lines ! i) = Some match \<longrightarrow>
      postLoop lines i contentLines =
        postLoop lines (i + 1)
          (contentLines @ [[[(''tag'', Str ''text''), (''text'', Str (match ! 1)),
                             (''style'', StrList [''bold''])]]])) \<and>
   FindStringSubmatch reMdHeading (replicate 7 CHR ''#'' @ rest) = None \<and>
   (i < length lines \<and> lines ! i = replicate 7 CHR ''#'' @ rest \<longrightarrow>
      postLoop lines i contentLines =
        postLoop lines (i + 1) (contentLines @ [parseInlineElements (lines ! i)])) \<and>
   contentLinesOf ''## Title'' =
     [[[(''tag'', Str ''text''), (''text'', Str ''Title''), (''style'', StrList [''bold''])]]] \<and>
   contentLinesOf ''####### Title'' = [[[(''tag'', Str ''text''), (''text'', Str ''####### Title'')]]]"
proof (intro conjI impI)
  assume "FindStringSubmatch reMdHeading line = Some match"
  then show "\<exists>h w t. headingParts line h w t \<and> match = [line, t]" by (rule heading_Some)
next
  assume a: "headingParts line h w t \<and> \<not> cmatch Space (hd t)"
  then have l: "line = replicate h CHR ''#'' @ w @ t" by (simp add: headingParts_def)
  from a show "FindStringSubmatch reMdHeading line = Some [line, t]"
    unfolding l by (intro heading_regular) (simp_all add: headingParts_def)
next
  assume "i < length lines \<and> FindStringSubmatch reMdHeading (lines ! i) = Some match"
  then show "postLoop lines i contentLines =
        postLoop lines (i + 1)
          (contentLines @ [[[(''tag'', Str ''text''), (''text'', Str (match ! 1)),
                             (''style'', StrList [''bold''])]]])"
    using postLoop_heading by blast
next
  show "FindStringSubmatch reMdHeading (replicate 7 CHR ''#'' @ rest) = None"
    by (rule heading_seven)
next
  assume "i < length lines \<and> lines ! i = replicate 7 CHR ''#'' @ rest"
  then show "postLoop lines i contentLines =
        postLoop lines (i + 1) (contentLines @ [parseInlineElements (lines ! i)])"
    using postLoop_seven by blast
next
  show "contentLinesOf ''## Title'' =
     [[[(''tag'', Str ''text''), (''text'', Str ''Title''), (''style'', StrList [''bold''])]]]"
    by code_simp
  show "contentLinesOf ''####### Title'' = [[[(''tag'', Str ''text''), (''text'', Str ''####### Title'')]]]"
    by code_simp
qed

theorem heading_line_witness:
  "FindStringSubmatch reMdHeading ''###  Sub title'' = Some [''###  Sub title'', ''Sub title''] \<and>
   headingParts ''###  Sub title'' 3 ''  '' ''Sub title'' \<and>
   postLoop [''###  Sub title''] 0 [] =
     [[[(''tag'', Str ''text''), (''text'', Str ''Sub title''), (''style'', StrList [''bold''])]]] \<and>
   postLoop [''########''] 0 [] = [parseInlineElements ''########'']"
proof -
  let ?line = "''###  Sub title''"
  have p: "headingParts ?line 3 ''  '' ''Sub title''" by (simp add: headingParts_def numeral_eq_Suc)
  have s: "\<not> cmatch Space (hd ''Sub title'')" by simp
  note t0 = heading_line[of ?line "[?line, ''Sub title'']" 3 "''  ''" "''Sub title''" 0 "[?line]" "[]" "[]"]
  from t0 p s have f: "FindStringSubmatch reMdHeading ?line = Some [?line, ''Sub title'']" by blast
  have "(0::nat) < length [?line]" by simp
  moreover from f have "FindStringSubmatch reMdHeading ([?line] ! 0) = Some [?line, ''Sub title'']"
    by simp
  ultimately have "postLoop [?line] 0 [] =
        postLoop [?line] (0 + 1)
          ([] @ [[[(''tag'', Str ''text''), (''text'', Str ([?line, ''Sub title''] ! 1)),
                             (''style'', StrList [''bold''])]]])" using t0 by blast
  then have 1: "postLoop [?line] 0 [] =
     [[[(''tag'', Str ''text''), (''text'', Str ''Sub title''), (''style'', StrList [''bold''])]]]"
    by (simp add: postLoop_done)
  have "(0::nat) < length [''########''] \<and> [''########''] ! 0 = replicate 7 CHR ''#'' @ ''#''"
    by (simp add: numeral_eq_Suc)
  with heading_line[of "''x''" "[]" 1 "[]" "[]" 0 "[''########'']" "[]" "''#''"]
  have "postLoop [''########''] 0 [] =
        postLoop [''########''] (0 + 1) ([] @ [parseInlineElements ([''########''] ! 0)])" by blast
  then have 2: "postLoop [''########''] 0 [] = [parseInlineElements ''########'']"
    by (simp add: postLoop_done)
  from f p 1 2 show ?thesis by blast
qed

subsection \<open>The document is never empty\<close>

text \<open>
  The text splits into at least one line and every iteration of the loop appends a line,
  so \<open>contentLines\<close> is never the nil slice when it is encoded.
\<close>

lemma splitAcc_nonempty: "splitAcc cur s \<noteq> []"
  by (induction s arbitrary: cur) auto

lemma Split_nonempty: "Split text \<noteq> []"
  by (simp add: Split_def splitAcc_nonempty)

lemma postLoop_length: "length contentLines \<le> length (postLoop lines i contentLines)"
proof (induction lines i contentLines rule: postLoop.induct)
  case (1 lines i contentLines)
  show ?case
  proof (cases "i < length lines")
    case False
    then show ?thesis by (simp add: postLoop_done)
  next
    case lt: True
    show ?thesis
    proof (cases "HasPrefix (TrimSpace (lines ! i)) ''```''")
      case fence: True
      obtain j codeLines where f: "fenceLines lines (i + 1) [] = (j, codeLines)"
        by (cases "fenceLines lines (i + 1) []")
      from "1.IH"(1)[OF lt refl fence f[symmetric] refl refl refl]
      show ?thesis using lt fence f by (subst postLoop.simps) (simp add: Let_def)
    next
      case nf: False
      show ?thesis
      proof (cases "FindStringSubmatch reMdHeading (lines ! i)")
        case (Some match)
        from "1.IH"(4)[OF lt refl nf Some]
        show ?thesis using lt nf Some by (subst postLoop.simps) (simp add: Let_def)
      next
        case None
        show ?thesis
        proof (cases "TrimSpace (lines ! i) = []")
          case True
          from "1.IH"(2)[OF lt refl nf None True]
          show ?thesis using lt nf None True by (subst postLoop.simps) (simp add: Let_def)
        next
          case False
          from "1.IH"(3)[OF lt refl nf None False refl]
          show ?thesis using lt nf None False
            by (subst postLoop.simps) (auto simp: Let_def split: if_splits)
        qed
      qed
    qed
  qed
qed

lemma postLoop_adds:
  assumes "i < length lines"
  shows "length contentLines < length (postLoop lines i contentLines)"
proof (cases "HasPrefix (TrimSpace (lines ! i)) ''```''")
  case fence: True
  obtain j codeLines where f: "fenceLines lines (i + 1) [] = (j, codeLines)"
    by (cases "fenceLines lines (i + 1) []")
  let ?acc = "contentLines @ [[[(''tag'', Str ''text''), (''text'', Str (Join codeLines)),
                       (''style'', StrList [''code_block''])]]]"
  have "length contentLines < length ?acc" by simp
  also have "\<dots> \<le> length (postLoop lines (if j < length lines then j + 1 else j) ?acc)"
    by (rule postLoop_length)
  finally show ?thesis using assms fence f by (subst postLoop.simps) (simp add: Let_def)
next
  case nf: False
  show ?thesis
  proof (cases "FindStringSubmatch reMdHeading (lines ! i)")
    case (Some match)
    let ?acc = "contentLines @ [[[(''tag'', Str ''text''), (''text'', Str (match ! 1)),
                                (''style'', StrList [''bold''])]]]"
    have "length contentLines < length ?acc" by simp
    also have "\<dots> \<le> length (postLoop lines (i + 1) ?acc)" by (rule postLoop_length)
    finally show ?thesis by (simp only: postLoop_heading[OF assms Some])
  next
    case None
    show ?thesis
    proof (cases "TrimSpace (lines ! i) = []")
      case True
      let ?acc = "contentLines @ [[[(''tag'', Str ''text''), (''text'', Str [])]]]"
      have "length contentLines < length ?acc" by simp
      also have "\<dots> \<le> length (postLoop lines (i + 1) ?acc)" by (rule postLoop_length)
      finally show ?thesis using assms nf None True
        by (subst postLoop.simps) (simp add: Let_def)
    next
      case False
      let ?acc = "contentLines @ [parseInlineElements (lines ! i)]"
      from parseInlineElements_emits[OF False]
      have l: "length (parseInlineElements (lines ! i)) > 0" by simp
      have "length contentLines < length ?acc" by simp
      also have "\<dots> \<le> length (postLoop lines (i + 1) ?acc)" by (rule postLoop_length)
      finally show ?thesis using postLoop_normal[OF assms nf None False, of contentLines] l
        by simp
    qed
  qed
qed

lemma contentLinesOf_nonempty: "contentLinesOf text \<noteq> []"
proof -
  have "0 < length (Split text)" using Split_nonempty by simp
  from postLoop_adds[OF this, of "[]"] show ?thesis by (auto simp: contentLinesOf_def)
qed

text \<open>
  C2. For every text the value that \<open>markdownToFeishuPost\<close> encodes is an object with the
  single key \<open>zh_cn\<close>, which maps to an object with the single key \<open>content\<close>: the lines of
  the document, at least one, as an array of arrays of run objects. The object under
  \<open>zh_cn\<close> has no \<open>title\<close>. For the text \<open>hello\<close> the encoded value is the one shown.
\<close>

theorem markdownToFeishuPost_no_title:
  "markdownToFeishuPost Marshal text =
     Marshal (Obj [(''zh_cn'',
       Obj [(''content'', Arr (map (\<lambda>l. Arr (map Obj l)) (contentLinesOf text)))])]) \<and>
   contentLinesOf text \<noteq> [] \<and>
   map_of [(''content'', Arr (map (\<lambda>l. Arr (map Obj l)) (contentLinesOf text)))] ''title'' = None \<and>
   markdownToFeishuPost Marshal ''hello'' =
     Marshal (Obj [(''zh_cn'',
       Obj [(''content'', Arr [Arr [Obj [(''tag'', Str ''text''), (''text'', Str ''hello'')]]])])])"
proof -
  have "contentLinesOf ''hello'' = [[[(''tag'', Str ''text''), (''text'', Str ''hello'')]]]"
    by code_simp
  then show ?thesis by (simp add: markdownToFeishuPost_eq postOf_def contentLinesOf_nonempty)
qed

text \<open>
  C6. \<open>buildFeishuContent\<close> returns the plain-text payload only when the encoding of the
  post failed, and the payload is then the encoding of the object whose \<open>text\<close> is the
  content as it was given. When the encoding of the post succeeds the result is the post.
  The only failure of \<open>markdownToFeishuPost\<close> is the failure of the encoder on the post; the
  post itself is built for every text.
\<close>

theorem buildFeishuContent_fallback:
  "(buildFeishuContent Marshal content = Inr (MsgTypeText, payload) \<longrightarrow>
      (\<exists>err. markdownToFeishuPost Marshal content = Inl err) \<and>
      Marshal (Obj [(''text'', Str content)]) = Inr payload) \<and>
   (markdownToFeishuPost Marshal content = Inr postPayload \<longrightarrow>
      buildFeishuContent Marshal content = Inr (MsgTypePost, postPayload)) \<and>
   (markdownToFeishuPost Marshal content = Inl err \<longrightarrow>
      buildFeishuContent Marshal content =
        (case Marshal (Obj [(''text'', Str content)]) of
           Inl e \<Rightarrow> Inl e
         | Inr payload \<Rightarrow> Inr (MsgTypeText, payload))) \<and>
   markdownToFeishuPost Marshal content = Marshal (postOf content) \<and>
   MsgTypeText \<noteq> MsgTypePost"
  by (auto simp: buildFeishuContent_def markdownToFeishuPost_eq MsgTypeText_def MsgTypePost_def
      split: sum.splits)

theorem buildFeishuContent_fallback_witness:
  "buildFeishuContent
     (\<lambda>v. if v = Obj [(''text'', Str ''hi'')] then Inr ''{text:hi}'' else Inl ''unsupported'') ''hi''
     = Inr (MsgTypeText, ''{text:hi}'') \<and>
   markdownToFeishuPost
     (\<lambda>v. if v = Obj [(''text'', Str ''hi'')] then Inr ''{text:hi}'' else Inl ''unsupported'') ''hi''
     = Inl ''unsupported'' \<and>
   (\<lambda>v. if v = Obj [(''text'', Str ''hi'')] then Inr ''{text:hi}'' else Inl ''unsupported'')
     (Obj [(''text'', Str ''hi'')]) = (Inr ''{text:hi}'' :: string + string)"
proof -
  let ?M = "\<lambda>v. if v = Obj [(''text'', Str ''hi'')] then Inr ''{text:hi}'' else Inl ''unsupported''"
  have m: "markdownToFeishuPost ?M ''hi'' = Inl ''unsupported''"
    by (simp add: markdownToFeishuPost_eq postOf_def)
  from buildFeishuContent_fallback[of ?M "''hi''" "''{text:hi}''" "''x''" "''unsupported''"] m
  have "buildFeishuContent ?M ''hi'' =
        (case ?M (Obj [(''text'', Str ''hi'')]) of
           Inl e \<Rightarrow> Inl e
         | Inr payload \<Rightarrow> Inr (MsgTypeText, payload))" by blast
  then have b: "buildFeishuContent ?M ''hi'' = Inr (MsgTypeText, ''{text:hi}'')" by simp
  with buildFeishuContent_fallback[of ?M "''hi''" "''{text:hi}''" "''x''" "''unsupported''"]
  have "?M (Obj [(''text'', Str ''hi'')]) = Inr ''{text:hi}''" by blast
  with m b show ?thesis by blast
qed

subsection \<open>The blocks of the text\<close>

text \<open>
  The blocks as the specification words them: a fence line opens a fenced code block that
  holds the lines up to the next fence line or the end of the text, and the closing fence
  line is consumed with it; a line that matches the heading pattern is a heading with the
  text of the group; a line that is empty after trimming is a blank; any other line is a
  normal line. \<open>assemble\<close> is the line of the document that a block becomes.
\<close>

datatype block = FencedCode "string list" | Heading string | Blank | Normal string

definition notFence :: "string \<Rightarrow> bool" where
  "notFence l \<longleftrightarrow> \<not> HasPrefix (TrimSpace l) ''```''"

function splitBlocks :: "string list \<Rightarrow> block list" where
  "splitBlocks [] = []"
| "splitBlocks (line # rest) =
     (if HasPrefix (TrimSpace line) ''```'' then
        FencedCode (takeWhile notFence rest) # splitBlocks (drop 1 (dropWhile notFence rest))
      else
        (case FindStringSubmatch reMdHeading line of
           Some match \<Rightarrow> Heading (match ! 1) # splitBlocks rest
         | None \<Rightarrow>
             if TrimSpace line = [] then Blank # splitBlocks rest
             else Normal line # splitBlocks rest))"
  by pat_completeness auto
termination
proof (relation "measure length")
  fix line :: string and rest :: "string list"
  have "length (dropWhile notFence rest) \<le> length rest" by (rule length_dropWhile_le)
  then show "(drop 1 (dropWhile notFence rest), line # rest) \<in> measure length" by simp
qed simp_all

declare splitBlocks.simps [simp del]

fun assemble :: "block \<Rightarrow> postElement list" where
  "assemble (FencedCode codeLines) =
     [[(''tag'', Str ''text''), (''text'', Str (Join codeLines)), (''style'', StrList [''code_block''])]]"
| "assemble (Heading t) =
     [[(''tag'', Str ''text''), (''text'', Str t), (''style'', StrList [''bold''])]]"
| "assemble Blank = [[(''tag'', Str ''text''), (''text'', Str [])]]"
| "assemble (Normal line) = parseInlineElements line"

lemma fenceLines_takeWhile:
  "i \<le> length lines \<Longrightarrow>
   fenceLines lines i codeLines =
     (i + length (takeWhile notFence (drop i lines)), codeLines @ takeWhile notFence (drop i lines))"
proof (induction lines i codeLines rule: fenceLines.induct)
  case (1 lines i codeLines)
  show ?case
  proof (cases "i < length lines")
    case False
    with "1.prems" show ?thesis by (subst fenceLines.simps) simp
  next
    case lt: True
    then have d: "drop i lines = lines ! i # drop (Suc i) lines"
      by (simp add: Cons_nth_drop_Suc)
    show ?thesis
    proof (cases "HasPrefix (TrimSpace (lines ! i)) ''```''")
      case True
      with lt d show ?thesis by (subst fenceLines.simps) (simp add: notFence_def)
    next
      case False
      with lt have "fenceLines lines (i + 1) (codeLines @ [lines ! i]) =
          (i + 1 + length (takeWhile notFence (drop (i + 1) lines)),
           (codeLines @ [lines ! i]) @ takeWhile notFence (drop (i + 1) lines))"
        by (intro "1.IH") simp_all
      with lt False d show ?thesis by (subst fenceLines.simps) (simp add: notFence_def)
    qed
  qed
qed

lemma postLoop_blocks:
  "postLoop lines i contentLines = contentLines @ map assemble (splitBlocks (drop i lines))"
proof (induction lines i contentLines rule: postLoop.induct)
  case (1 lines i contentLines)
  show ?case
  proof (cases "i < length lines")
    case False
    then show ?thesis by (simp add: postLoop_done splitBlocks.simps)
  next
    case lt: True
    then have d: "drop i lines = lines ! i # drop (Suc i) lines"
      by (simp add: Cons_nth_drop_Suc)
    let ?line = "lines ! i" and ?rest = "drop (Suc i) lines"
    show ?thesis
    proof (cases "HasPrefix (TrimSpace ?line) ''```''")
      case fence: True
      let ?body = "takeWhile notFence ?rest"
      let ?j = "i + 1 + length ?body"
      have f: "fenceLines lines (i + 1) [] = (?j, ?body)"
        using lt fenceLines_takeWhile[of "i + 1" lines "[]"] by simp
      let ?j' = "if ?j < length lines then ?j + 1 else ?j"
      let ?acc = "contentLines @ [[[(''tag'', Str ''text''), (''text'', Str (Join ?body)),
                       (''style'', StrList [''code_block''])]]]"
      have dw: "dropWhile notFence ?rest = drop (length ?body) ?rest"
        by (rule dropWhile_eq_drop)
      have "drop ?j' lines = drop 1 (dropWhile notFence ?rest)"
        by (simp add: dw add.commute)
      moreover from "1.IH"(1)[OF lt refl fence f[symmetric] refl refl refl]
      have "postLoop lines ?j' ?acc = ?acc @ map assemble (splitBlocks (drop ?j' lines))" .
      moreover have "postLoop lines i contentLines = postLoop lines ?j' ?acc"
        using lt fence f by (subst postLoop.simps) (simp add: Let_def)
      ultimately show ?thesis using fence by (simp add: d splitBlocks.simps)
    next
      case nf: False
      show ?thesis
      proof (cases "FindStringSubmatch reMdHeading ?line")
        case (Some match)
        from "1.IH"(4)[OF lt refl nf Some] postLoop_heading[OF lt Some, of contentLines]
        show ?thesis using nf Some by (simp add: d splitBlocks.simps)
      next
        case None
        show ?thesis
        proof (cases "TrimSpace ?line = []")
          case True
          from "1.IH"(2)[OF lt refl nf None True]
          have "postLoop lines (i + 1) (contentLines @ [[[(''tag'', Str ''text''), (''text'', Str [])]]]) =
              (contentLines @ [[[(''tag'', Str ''text''), (''text'', Str [])]]]) @
                map assemble (splitBlocks (drop (i + 1) lines))" .
          moreover have "postLoop lines i contentLines =
              postLoop lines (i + 1) (contentLines @ [[[(''tag'', Str ''text''), (''text'', Str [])]]])"
            using lt nf None True by (subst postLoop.simps) (simp add: Let_def)
          ultimately show ?thesis using nf None True by (simp add: d splitBlocks.simps)
        next
          case False
          from parseInlineElements_emits[OF False]
          have l: "length (parseInlineElements ?line) > 0" by simp
          from "1.IH"(3)[OF lt refl nf None False refl] l
          have "postLoop lines (i + 1) (contentLines @ [parseInlineElements ?line]) =
              (contentLines @ [parseInlineElements ?line]) @
                map assemble (splitBlocks (drop (i + 1) lines))" by simp
          moreover have "postLoop lines i contentLines =
              postLoop lines (i + 1) (contentLines @ [parseInlineElements ?line])"
            using postLoop_normal[OF lt nf None False, of contentLines] l by simp
          ultimately show ?thesis using nf None False by (simp add: d splitBlocks.simps)
        qed
      qed
    qed
  qed
qed

lemma contentLinesOf_blocks: "contentLinesOf text = map assemble (splitBlocks (Split text))"
  by (simp add: contentLinesOf_def postLoop_blocks)

lemma splitBlocks_heading: "Heading t \<in> set (splitBlocks ls) \<Longrightarrow> t \<noteq> []"
proof (induction ls rule: splitBlocks.induct)
  case 1
  then show ?case by (simp add: splitBlocks.simps)
next
  case (2 line rest)
  show ?case
  proof (cases "HasPrefix (TrimSpace line) ''```''")
    case True
    with 2 show ?thesis by (auto simp: splitBlocks.simps)
  next
    case nf: False
    show ?thesis
    proof (cases "FindStringSubmatch reMdHeading line")
      case (Some match)
      from find_submatch1[OF wf_patterns(4) ngroups_patterns(4) Some]
      have "match ! 1 \<noteq> []" by auto
      with 2 nf Some show ?thesis by (auto simp: splitBlocks.simps)
    next
      case None
      with 2 nf show ?thesis by (auto simp: splitBlocks.simps split: if_splits)
    qed
  qed
qed

lemma assemble_text:
  assumes "\<forall>t. b = Heading t \<longrightarrow> t \<noteq> []" "el \<in> set (assemble b)"
  shows "(\<exists>t. map_of el ''text'' = Some (Str t)) \<and>
         (map_of el ''tag'' = Some (Str ''a'') \<longrightarrow> map_of el ''text'' \<noteq> Some (Str [])) \<and>
         (map_of el ''text'' = Some (Str []) \<longleftrightarrow>
            b = Blank \<or> b = FencedCode [] \<or> b = FencedCode [[]])"
proof (cases b)
  case (FencedCode cs)
  with assms(2) show ?thesis by (simp add: Join_empty)
next
  case (Heading t')
  with assms show ?thesis by simp
next
  case Blank
  with assms(2) show ?thesis by simp
next
  case (Normal line)
  with assms(2) have "inlineRun el" using parseInlineElements_runs by simp
  with Normal show ?thesis unfolding inlineRun_def by auto
qed


text \<open>
  C3, as the code has it. The document is the list of the lines of the blocks of the text,
  one line for each block in order. Every run carries a text, and the text of a link is
  never empty. A run has an empty text exactly when its block is a blank source line or a
  fenced code block without content, that is with no line or with one empty line between
  the fence lines; the runs of headings, of normal lines and of fenced code blocks with
  content are never empty.
\<close>

theorem contentLinesOf_empty_text:
  "contentLinesOf text = map assemble (splitBlocks (Split text)) \<and>
   postLoop lines i contentLines = contentLines @ map assemble (splitBlocks (drop i lines)) \<and>
   (b \<in> set (splitBlocks (Split text)) \<and> el \<in> set (assemble b) \<longrightarrow>
      (\<exists>t. map_of el ''text'' = Some (Str t)) \<and>
      (map_of el ''tag'' = Some (Str ''a'') \<longrightarrow> map_of el ''text'' \<noteq> Some (Str [])) \<and>
      (map_of el ''text'' = Some (Str []) \<longleftrightarrow>
         b = Blank \<or> b = FencedCode [] \<or> b = FencedCode [[]])) \<and>
   (l \<in> set (contentLinesOf text) \<and> el \<in> set l \<and> map_of el ''text'' = Some (Str []) \<longrightarrow>
      l = assemble Blank \<or> l = assemble (FencedCode []))"
proof (intro conjI impI)
  show "contentLinesOf text = map assemble (splitBlocks (Split text))"
    by (rule contentLinesOf_blocks)
  show "postLoop lines i contentLines = contentLines @ map assemble (splitBlocks (drop i lines))"
    by (rule postLoop_blocks)
next
  assume a: "b \<in> set (splitBlocks (Split text)) \<and> el \<in> set (assemble b)"
  then have "\<forall>t. b = Heading t \<longrightarrow> t \<noteq> []" using splitBlocks_heading by blast
  from assemble_text[OF this] a
  have r: "(\<exists>t. map_of el ''text'' = Some (Str t)) \<and>
         (map_of el ''tag'' = Some (Str ''a'') \<longrightarrow> map_of el ''text'' \<noteq> Some (Str [])) \<and>
         (map_of el ''text'' = Some (Str []) \<longleftrightarrow>
            b = Blank \<or> b = FencedCode [] \<or> b = FencedCode [[]])" by blast
  from r show "\<exists>t. map_of el ''text'' = Some (Str t)" by blast
  from r show "map_of el ''text'' \<noteq> Some (Str [])" if "map_of el ''tag'' = Some (Str ''a'')"
    using that by blast
  from r show "map_of el ''text'' = Some (Str []) \<longleftrightarrow>
         b = Blank \<or> b = FencedCode [] \<or> b = FencedCode [[]]" by blast
next
  assume a: "l \<in> set (contentLinesOf text) \<and> el \<in> set l \<and> map_of el ''text'' = Some (Str [])"
  then have "docLine l" using contentLinesOf_docLines by blast
  from docLine_text[OF this, of el] a
  have "l = [[(''tag'', Str ''text''), (''text'', Str [])]] \<or>
        l = [[(''tag'', Str ''text''), (''text'', Str []), (''style'', StrList [''code_block''])]]"
    by blast
  then show "l = assemble Blank \<or> l = assemble (FencedCode [])" by simp
qed

theorem contentLinesOf_empty_text_witness:
  "splitBlocks (Split (''[a](b)'' @ [CHR 0x0A] @ '' '' @ [CHR 0x0A] @ ''# T'')) =
     [Normal ''[a](b)'', Blank, Heading ''T''] \<and>
   [(''tag'', Str ''text''), (''text'', Str [])] \<in> set (assemble Blank) \<and>
   map_of [(''tag'', Str ''text''), (''text'', Str [])] ''tag'' \<noteq> Some (Str ''a'') \<and>
   [(''tag'', Str ''a''), (''text'', Str ''a''), (''href'', Str ''b'')]
      \<in> set (assemble (Normal ''[a](b)'')) \<and>
   map_of [(''tag'', Str ''a''), (''text'', Str ''a''), (''href'', Str ''b'')] ''text'' \<noteq> Some (Str [])"
proof -
  let ?text = "''[a](b)'' @ [CHR 0x0A] @ '' '' @ [CHR 0x0A] @ ''# T''"
  let ?blank = "[(''tag'', Str ''text''), (''text'', Str [])]"
  let ?link = "[(''tag'', Str ''a''), (''text'', Str ''a''), (''href'', Str ''b'')]"
  have s: "splitBlocks (Split ?text) = [Normal ''[a](b)'', Blank, Heading ''T'']"
    by code_simp
  have n: "assemble (Normal ''[a](b)'') = [?link]" by code_simp
  from s have 1: "Blank \<in> set (splitBlocks (Split ?text)) \<and> ?blank \<in> set (assemble Blank)"
    by simp
  from s n have 2: "Normal ''[a](b)'' \<in> set (splitBlocks (Split ?text)) \<and>
      ?link \<in> set (assemble (Normal ''[a](b)''))" by simp
  from contentLinesOf_empty_text[of ?text "[]" 0 "[]" Blank ?blank "[]"] 1
  have "map_of ?blank ''tag'' = Some (Str ''a'') \<longrightarrow> map_of ?blank ''text'' \<noteq> Some (Str [])"
    by blast
  then have 3: "map_of ?blank ''tag'' \<noteq> Some (Str ''a'')" by simp
  from contentLinesOf_empty_text[of ?text "[]" 0 "[]" "Normal ''[a](b)''" ?link "[]"] 2
  have "map_of ?link ''tag'' = Some (Str ''a'') \<longrightarrow> map_of ?link ''text'' \<noteq> Some (Str [])"
    by blast
  then have 4: "map_of ?link ''text'' \<noteq> Some (Str [])" by simp
  from s 1 2 3 4 show ?thesis by blast
qed

text \<open>
  The claim C3 as it is written fails: a fenced code block without content yields a
  \<open>code_block\<close> run whose text is empty.
\<close>

theorem contentLinesOf_empty_fence_counterexample:
  "contentLinesOf (''```'' @ [CHR 0x0A] @ ''```'') =
     [[[(''tag'', Str ''text''), (''text'', Str []), (''style'', StrList [''code_block''])]]]"
  by code_simp

end
